theory Spec2Isabelle
  imports Complex_Main "HOL-Library.Multiset"
begin

section \<open>Makespan evaluation of a job-to-machine assignment\<close>

text \<open>
  Shallow embedding of \<^verbatim>\<open>src/scheduling/calculate_makespan.py\<close>. Python floats are
  idealised as \<^typ>\<open>real\<close>; an exception is a value \<open>Inl e\<close> of a sum type. The job
  objects that the Python mutates in place are the entries of a list that is passed
  along and returned updated; a job's identity is its position in the list of the jobs
  of its machine (the input list is taken to hold pairwise different objects).
\<close>

subsection \<open>Data\<close>

datatype error =
    JobNotFound string  \<comment> \<open>\<^verbatim>\<open>ValueError(f"Job {job_name} not found in {jobs}")\<close>\<close>
  | EmptyMax            \<comment> \<open>\<^verbatim>\<open>ValueError\<close> of \<^verbatim>\<open>max\<close> on an empty sequence\<close>

text \<open>
  Modelled from the spec: the class \<^verbatim>\<open>JobResultInfo\<close> is declared in
  \<^verbatim>\<open>scheduling/types.py\<close>, which is not among the sources. Its fields are those of the
  Job Record of the spec (section 3), in the order of the positional constructor call
  \<^verbatim>\<open>JobResultInfo("0", machine, 0.0, 0.0, 0)\<close>; the spec names the last one quantity.
\<close>

record JobResultInfo =
  name :: string
  machine :: string
  start_time :: real
  completion_time :: real
  capacity :: int

type_synonym PTimes = "real list list"
type_synonym STimes = "real list list list"

text \<open>The dummy job \<^verbatim>\<open>JobResultInfo("0", machine, 0.0, 0.0, 0)\<close>.\<close>

definition dummy_job :: "string \<Rightarrow> JobResultInfo" where
  "dummy_job m = \<lparr>name = ''0'', machine = m, start_time = 0, completion_time = 0, capacity = 0\<rparr>"

subsection \<open>Time Tables\<close>

text \<open>
  Modelled from the spec: \<^verbatim>\<open>pulp.makeDict(headers, array, 0)\<close> belongs to the external
  library PuLP, which is not among the sources. Following section 3 of the spec, a Time
  Table is a lookup structure built once from the flat tabular input, keyed by the
  combinations of the header lists, and defaulting to 0 for every unknown combination:
  the i-th key of a header list is paired with the i-th entry of the array (a later
  occurrence of a key replaces an earlier one, as in \<^verbatim>\<open>dict(zip(keys, values))\<close>), and
  a key with no entry is unknown. What the library does with an array shorter than its
  header list, or with an empty header list, is outside this model.
\<close>

definition makeDict1 :: "string list \<Rightarrow> real list \<Rightarrow> (string \<rightharpoonup> real)" where
  "makeDict1 hs arr = Map.empty(hs [\<mapsto>] arr)"

definition makeDict2 ::
  "string list \<Rightarrow> string list \<Rightarrow> real list list \<Rightarrow> (string \<rightharpoonup> (string \<rightharpoonup> real))" where
  "makeDict2 hs1 hs2 arr = Map.empty(hs1 [\<mapsto>] map (makeDict1 hs2) arr)"

definition makeDict3 ::
  "string list \<Rightarrow> string list \<Rightarrow> string list \<Rightarrow> real list list list
     \<Rightarrow> (string \<rightharpoonup> (string \<rightharpoonup> (string \<rightharpoonup> real)))" where
  "makeDict3 hs1 hs2 hs3 arr = Map.empty(hs1 [\<mapsto>] map (makeDict2 hs2 hs3) arr)"

text \<open>The lookups \<^verbatim>\<open>d[k]\<close>, \<^verbatim>\<open>d[k1][k2]\<close> and \<^verbatim>\<open>d[k1][k2][k3]\<close> with the default 0.\<close>

definition get1 :: "(string \<rightharpoonup> real) \<Rightarrow> string \<Rightarrow> real" where
  "get1 d k = (case d k of None \<Rightarrow> 0 | Some v \<Rightarrow> v)"

definition get2 :: "(string \<rightharpoonup> (string \<rightharpoonup> real)) \<Rightarrow> string \<Rightarrow> string \<Rightarrow> real" where
  "get2 d k1 k2 = (case d k1 of None \<Rightarrow> 0 | Some d1 \<Rightarrow> get1 d1 k2)"

definition get3 ::
  "(string \<rightharpoonup> (string \<rightharpoonup> (string \<rightharpoonup> real))) \<Rightarrow> string \<Rightarrow> string \<Rightarrow> string \<Rightarrow> real" where
  "get3 d k1 k2 k3 = (case d k1 of None \<Rightarrow> 0 | Some d2 \<Rightarrow> get2 d2 k2 k3)"

subsection \<open>Python's \<^verbatim>\<open>max\<close>\<close>

text \<open>
  \<^verbatim>\<open>max(xs, key=f)\<close> keeps the first element whose key is maximal (a later element
  replaces the best one only when its key is strictly greater) and raises on an empty
  sequence.
\<close>

fun max_from :: "('a \<Rightarrow> real) \<Rightarrow> 'a \<Rightarrow> 'a list \<Rightarrow> 'a" where
  "max_from key best [] = best"
| "max_from key best (x # xs) = max_from key (if key best < key x then x else best) xs"

definition py_max :: "('a \<Rightarrow> real) \<Rightarrow> 'a list \<Rightarrow> error + 'a" where
  "py_max key xs = (case xs of [] \<Rightarrow> Inl EmptyMax | x # rest \<Rightarrow> Inr (max_from key x rest))"

subsection \<open>Predecessor resolution and the completion-time step\<close>

text \<open>\<^verbatim>\<open>_find_last_completed\<close> (lines 39-53).\<close>

definition find_last_completed ::
  "string \<Rightarrow> JobResultInfo list \<Rightarrow> string \<Rightarrow> error + JobResultInfo" where
  "find_last_completed job_name jobs m =
     (case find (\<lambda>job. name job = job_name) jobs of
        None \<Rightarrow> Inl (JobNotFound job_name)
      | Some job \<Rightarrow>
          (let original_starttime = start_time job;
               completed_before = filter (\<lambda>j. completion_time j \<le> original_starttime) jobs
           in if length completed_before = 0 then Inr (dummy_job m)
              else py_max completion_time completed_before))"

text \<open>
  Lines 132-136: the job at position \<open>i\<close> gets its start time, then its completion time
  \<^verbatim>\<open>last_completed.completion_time + p_times[job.name][machine]
      + s_times[last_completed.name][job.name][machine]\<close>.
\<close>

definition complete_job ::
  "(string \<rightharpoonup> (string \<rightharpoonup> real)) \<Rightarrow> (string \<rightharpoonup> (string \<rightharpoonup> (string \<rightharpoonup> real))) \<Rightarrow> string
     \<Rightarrow> JobResultInfo \<Rightarrow> real \<Rightarrow> JobResultInfo \<Rightarrow> JobResultInfo" where
  "complete_job p_times s_times m last_completed new_start job =
     job\<lparr>start_time := new_start,
         completion_time := completion_time last_completed + get2 p_times (name job) m
                              + get3 s_times (name last_completed) (name job) m\<rparr>"

text \<open>
  The body of the inner loop (lines 109-136) for the job at position \<open>i\<close> of the live
  list \<open>assigned_jobs\<close>. It returns the resolved predecessor \<open>last_completed\<close> (which
  the Python keeps in a local variable only) and the live list with the job updated.
  In dynamic-bin mode \<open>last_completed\<close> may be the job itself: its completion time
  and name are read before the job's completion time is written.
\<close>

definition process_job ::
  "bool \<Rightarrow> (string \<rightharpoonup> (string \<rightharpoonup> real)) \<Rightarrow> (string \<rightharpoonup> (string \<rightharpoonup> (string \<rightharpoonup> real))) \<Rightarrow> string
     \<Rightarrow> JobResultInfo list \<Rightarrow> JobResultInfo list \<Rightarrow> nat
     \<Rightarrow> error + (JobResultInfo \<times> JobResultInfo list)" where
  "process_job for_bin p_times s_times m assigned_jobs_copy assigned_jobs i =
     (let job = assigned_jobs ! i in
      if for_bin then
        (case py_max completion_time assigned_jobs of
           Inl e \<Rightarrow> Inl e
         | Inr found \<Rightarrow>
             (let last_completed = (if start_time job = 0 then dummy_job m else found);
                  new_start = completion_time last_completed
              in Inr (last_completed,
                      assigned_jobs[i := complete_job p_times s_times m last_completed new_start job])))
      else
        (case find_last_completed (name job) assigned_jobs_copy m of
           Inl e \<Rightarrow> Inl e
         | Inr found \<Rightarrow>
             (let last_completed = (if start_time job = 0 then dummy_job m else found);
                  new_start = (case find (\<lambda>j. name last_completed = name j) assigned_jobs of
                                 Some j \<Rightarrow> completion_time j
                               | None \<Rightarrow> 0)
              in Inr (last_completed,
                      assigned_jobs[i := complete_job p_times s_times m last_completed new_start job]))))"

text \<open>
  The inner loop over the positions in processing order. The second component of the
  result logs, for each processed position, the predecessor that was resolved for it.
\<close>

fun run_jobs ::
  "bool \<Rightarrow> (string \<rightharpoonup> (string \<rightharpoonup> real)) \<Rightarrow> (string \<rightharpoonup> (string \<rightharpoonup> (string \<rightharpoonup> real))) \<Rightarrow> string
     \<Rightarrow> JobResultInfo list \<Rightarrow> nat list \<Rightarrow> JobResultInfo list
     \<Rightarrow> error + (JobResultInfo list \<times> (nat \<times> JobResultInfo) list)" where
  "run_jobs for_bin p_times s_times m cp [] live = Inr (live, [])"
| "run_jobs for_bin p_times s_times m cp (i # rest) live =
     (case process_job for_bin p_times s_times m cp live i of
        Inl e \<Rightarrow> Inl e
      | Inr (last_completed, live') \<Rightarrow>
          (case run_jobs for_bin p_times s_times m cp rest live' of
             Inl e \<Rightarrow> Inl e
           | Inr (final, preds) \<Rightarrow> Inr (final, (i, last_completed) # preds)))"

subsection \<open>One machine, all machines\<close>

text \<open>
  \<^verbatim>\<open>sorted(assigned_jobs, key=lambda x: x.start_time)\<close> is a stable sort of the job
  objects, computed once before the loop: here the positions of the live list, sorted
  by the start times the jobs have at that moment.
\<close>

definition processing_order :: "JobResultInfo list \<Rightarrow> nat list" where
  "processing_order assigned_jobs =
     sort_key (\<lambda>i. start_time (assigned_jobs ! i)) [0..<length assigned_jobs]"

record machine_result =
  on_machine :: string
  final_jobs :: "JobResultInfo list"
  resolved :: "(nat \<times> JobResultInfo) list"
  finish_time :: real

text \<open>The body of the outer loop (lines 103-137) for one machine and its jobs.\<close>

definition run_machine ::
  "bool \<Rightarrow> (string \<rightharpoonup> (string \<rightharpoonup> real)) \<Rightarrow> (string \<rightharpoonup> (string \<rightharpoonup> (string \<rightharpoonup> real)))
     \<Rightarrow> string \<times> JobResultInfo list \<Rightarrow> error + machine_result" where
  "run_machine for_bin p_times s_times entry =
     (case entry of (m, assigned_jobs) \<Rightarrow>
        (let assigned_jobs_copy = assigned_jobs in
         case run_jobs for_bin p_times s_times m assigned_jobs_copy
                (processing_order assigned_jobs) assigned_jobs of
           Inl e \<Rightarrow> Inl e
         | Inr (final, preds) \<Rightarrow>
             (case py_max (\<lambda>t. t) (map completion_time final) of
                Inl e \<Rightarrow> Inl e
              | Inr t \<Rightarrow> Inr \<lparr>on_machine = m, final_jobs = final, resolved = preds,
                              finish_time = t\<rparr>)))"

text \<open>
  Lines 98-100: \<^verbatim>\<open>assigned_machines[job.machine].append(job)\<close> on a
  \<^verbatim>\<open>defaultdict(list)\<close>, whose keys keep the order of their first insertion.
\<close>

fun append_job :: "JobResultInfo \<Rightarrow> (string \<times> JobResultInfo list) list
                     \<Rightarrow> (string \<times> JobResultInfo list) list" where
  "append_job job [] = [(machine job, [job])]"
| "append_job job ((m, js) # rest) =
     (if m = machine job then (m, js @ [job]) # rest else (m, js) # append_job job rest)"

definition assigned_machines :: "JobResultInfo list \<Rightarrow> (string \<times> JobResultInfo list) list" where
  "assigned_machines jobs = fold append_job jobs []"

fun run_machines ::
  "bool \<Rightarrow> (string \<rightharpoonup> (string \<rightharpoonup> real)) \<Rightarrow> (string \<rightharpoonup> (string \<rightharpoonup> (string \<rightharpoonup> real)))
     \<Rightarrow> (string \<times> JobResultInfo list) list \<Rightarrow> error + machine_result list" where
  "run_machines for_bin p_times s_times [] = Inr []"
| "run_machines for_bin p_times s_times (entry # rest) =
     (case run_machine for_bin p_times s_times entry of
        Inl e \<Rightarrow> Inl e
      | Inr r \<Rightarrow>
          (case run_machines for_bin p_times s_times rest of
             Inl e \<Rightarrow> Inl e
           | Inr rs \<Rightarrow> Inr (r # rs)))"

subsection \<open>The entry points\<close>

text \<open>
  \<^verbatim>\<open>_calc_makespan\<close> (lines 79-139). The result is the makespan together with what the
  call leaves behind in the job objects, machine by machine.
\<close>

definition calc_makespan ::
  "JobResultInfo list \<Rightarrow> PTimes \<Rightarrow> STimes \<Rightarrow> string list \<Rightarrow> string list \<Rightarrow> bool
     \<Rightarrow> error + (real \<times> machine_result list)" where
  "calc_makespan jobs process_times setup_times job_names machines for_bin =
     (let s_times = makeDict3 job_names job_names machines setup_times;
          p_times = makeDict2 (tl job_names) machines process_times
      in case run_machines for_bin p_times s_times (assigned_machines jobs) of
           Inl e \<Rightarrow> Inl e
         | Inr rs \<Rightarrow>
             (case py_max (\<lambda>t. t) (map finish_time rs) of
                Inl e \<Rightarrow> Inl e
              | Inr makespan \<Rightarrow> Inr (makespan, rs)))"

text \<open>
  \<^verbatim>\<open>calculate_makespan\<close> (lines 11-36); of the LP instance only the fields
  \<^verbatim>\<open>jobs\<close> and \<^verbatim>\<open>machines\<close> are read, and they are the first two arguments here.
\<close>

definition calculate_makespan ::
  "string list \<Rightarrow> string list \<Rightarrow> JobResultInfo list \<Rightarrow> PTimes \<Rightarrow> STimes
     \<Rightarrow> error + (real \<times> machine_result list)" where
  "calculate_makespan lp_jobs lp_machines jobs process_times setup_times =
     calc_makespan jobs process_times setup_times lp_jobs lp_machines False"

text \<open>
  \<^verbatim>\<open>calculate_bin_makespan\<close> (lines 56-76); the accelerators are a dictionary from
  machine names to capacities, here the list of its items.
\<close>

definition calculate_bin_makespan ::
  "JobResultInfo list \<Rightarrow> PTimes \<Rightarrow> STimes \<Rightarrow> (string \<times> int) list
     \<Rightarrow> error + (real \<times> machine_result list)" where
  "calculate_bin_makespan jobs process_times setup_times accelerators =
     (let lp_jobs = ''0'' # map name jobs;
          machines = map fst accelerators
      in calc_makespan jobs process_times setup_times lp_jobs machines True)"

subsection \<open>Auxiliary notions\<close>

text \<open>
  For the proofs: the invariant of the partition loop. After the jobs \<open>seen\<close>, the
  dictionary has one entry for each of their machines, holding the jobs of that machine
  in their order.
\<close>

definition grouped :: "(string \<times> JobResultInfo list) list \<Rightarrow> JobResultInfo list \<Rightarrow> bool" where
  "grouped acc seen \<longleftrightarrow>
     distinct (map fst acc) \<and> set (map fst acc) = set (map machine seen)
     \<and> (\<forall>m js. (m, js) \<in> set acc \<longrightarrow> js = filter (\<lambda>j. machine j = m) seen)"

text \<open>
  For the proofs: the completion time that ordered-list mode gives a job, as a function
  of the snapshot of the jobs of its machine, and the finish time of a machine.
\<close>

definition ordered_completion ::
  "(string \<rightharpoonup> (string \<rightharpoonup> real)) \<Rightarrow> (string \<rightharpoonup> (string \<rightharpoonup> (string \<rightharpoonup> real))) \<Rightarrow> string
     \<Rightarrow> JobResultInfo list \<Rightarrow> JobResultInfo \<Rightarrow> real" where
  "ordered_completion p s m cp job =
     (case find_last_completed (name job) cp m of
        Inl e \<Rightarrow> 0
      | Inr found \<Rightarrow>
          completion_time (complete_job p s m
            (if start_time job = 0 then dummy_job m else found) 0 job))"

definition ordered_finish ::
  "(string \<rightharpoonup> (string \<rightharpoonup> real)) \<Rightarrow> (string \<rightharpoonup> (string \<rightharpoonup> (string \<rightharpoonup> real)))
     \<Rightarrow> string \<times> JobResultInfo list \<Rightarrow> real" where
  "ordered_finish p s entry =
     (case entry of (m, js) \<Rightarrow> Max (set (map (ordered_completion p s m js) js)))"

subsection \<open>The job list after a call\<close>

text \<open>
  The Python writes into the job objects of the list it is given. \<open>ledger_after jobs rs\<close>
  is that list as a call with the per-machine results \<open>rs\<close> leaves it: the job at
  position \<open>k\<close> is found among the final jobs of its machine, at the position it has
  among the jobs of that machine.
\<close>

definition ledger_after :: "JobResultInfo list \<Rightarrow> machine_result list \<Rightarrow> JobResultInfo list" where
  "ledger_after jobs rs =
     map (\<lambda>k. case find (\<lambda>r. on_machine r = machine (jobs ! k)) rs of
                 None \<Rightarrow> jobs ! k
               | Some r \<Rightarrow>
                   final_jobs r ! length (filter (\<lambda>j. machine j = machine (jobs ! k)) (take k jobs)))
       [0..<length jobs]"

text \<open>
  Writing the start times and completion times of a saved copy back into the jobs of a
  list, position by position.
\<close>

definition restore_times :: "JobResultInfo list \<Rightarrow> JobResultInfo list \<Rightarrow> JobResultInfo list" where
  "restore_times saved ledger =
     map (\<lambda>(old, new). new\<lparr>start_time := start_time old, completion_time := completion_time old\<rparr>)
       (zip saved ledger)"

section \<open>Properties\<close>

subsection \<open>Auxiliary facts\<close>

lemma map_upds_empty_None: "k \<notin> set ks \<Longrightarrow> (Map.empty(ks [\<mapsto>] vs)) k = None"
  by simp

lemma map_upds_empty_SomeD: "(Map.empty(ks [\<mapsto>] vs)) k = Some v \<Longrightarrow> v \<in> set vs"
  by (auto simp: map_upds_def dest!: map_of_SomeD set_zip_rightD)

lemma get1_absent: "k \<notin> set hs \<Longrightarrow> get1 (makeDict1 hs arr) k = 0"
  by (simp add: get1_def makeDict1_def)

lemma get2_absent:
  "k1 \<notin> set hs1 \<or> k2 \<notin> set hs2 \<Longrightarrow> get2 (makeDict2 hs1 hs2 arr) k1 k2 = 0"
proof (cases "makeDict2 hs1 hs2 arr k1")
  case None
  then show ?thesis by (simp add: get2_def)
next
  case (Some d)
  assume a: "k1 \<notin> set hs1 \<or> k2 \<notin> set hs2"
  from Some have "d \<in> set (map (makeDict1 hs2) arr)"
    unfolding makeDict2_def by (rule map_upds_empty_SomeD)
  then obtain row where d: "d = makeDict1 hs2 row" by auto
  from Some have "k1 \<in> set hs1"
    unfolding makeDict2_def by (metis map_upds_empty_None option.distinct(1))
  with a have "k2 \<notin> set hs2" by simp
  with Some d show ?thesis by (simp add: get2_def get1_absent)
qed

lemma get3_absent:
  "k1 \<notin> set hs1 \<or> k2 \<notin> set hs2 \<or> k3 \<notin> set hs3 \<Longrightarrow> get3 (makeDict3 hs1 hs2 hs3 arr) k1 k2 k3 = 0"
proof (cases "makeDict3 hs1 hs2 hs3 arr k1")
  case None
  then show ?thesis by (simp add: get3_def)
next
  case (Some d)
  assume a: "k1 \<notin> set hs1 \<or> k2 \<notin> set hs2 \<or> k3 \<notin> set hs3"
  from Some have "d \<in> set (map (makeDict2 hs2 hs3) arr)"
    unfolding makeDict3_def by (rule map_upds_empty_SomeD)
  then obtain plane where d: "d = makeDict2 hs2 hs3 plane" by auto
  from Some have "k1 \<in> set hs1"
    unfolding makeDict3_def by (metis map_upds_empty_None option.distinct(1))
  with a have "k2 \<notin> set hs2 \<or> k3 \<notin> set hs3" by simp
  with Some d show ?thesis by (simp add: get3_def get2_absent)
qed

lemma max_from_mem: "max_from key b xs \<in> set (b # xs)"
  by (induction xs arbitrary: b) auto

lemma max_from_ge_best: "key b \<le> key (max_from key b xs)"
proof (induction xs arbitrary: b)
  case Nil
  show ?case by simp
next
  case (Cons x xs)
  have "key (if key b < key x then x else b) \<le> key (max_from key (if key b < key x then x else b) xs)"
    by (rule Cons.IH)
  then show ?case by (simp split: if_splits)
qed

lemma max_from_ge: "x \<in> set (b # xs) \<Longrightarrow> key x \<le> key (max_from key b xs)"
proof (induction xs arbitrary: b)
  case Nil
  then show ?case by simp
next
  case (Cons y ys)
  let ?b' = "if key b < key y then y else b"
  have ge: "key ?b' \<le> key (max_from key ?b' ys)" by (rule max_from_ge_best)
  from Cons.prems consider "x = b" | "x = y" | "x \<in> set ys" by auto
  then show ?case
  proof cases
    case 1
    with ge show ?thesis by (simp split: if_splits)
  next
    case 2
    with ge show ?thesis by (simp split: if_splits)
  next
    case 3
    then have "x \<in> set (?b' # ys)" by simp
    then have "key x \<le> key (max_from key ?b' ys)" by (rule Cons.IH)
    then show ?thesis by simp
  qed
qed

lemma py_max_nonempty: "xs \<noteq> [] \<Longrightarrow> \<exists>x. py_max key xs = Inr x \<and> x \<in> set xs \<and> (\<forall>y\<in>set xs. key y \<le> key x)"
  using max_from_mem[of key] max_from_ge[of _ _ _ key]
  by (cases xs) (auto simp: py_max_def)

lemma find_last_completed_fails_iff:
  "isl (find_last_completed job_name jobs m) \<longleftrightarrow> job_name \<notin> set (map name jobs)"
proof (cases "find (\<lambda>job. name job = job_name) jobs")
  case None
  then have "find_last_completed job_name jobs m = Inl (JobNotFound job_name)"
    by (simp add: find_last_completed_def)
  moreover from None have "job_name \<notin> set (map name jobs)"
    by (auto simp: find_None_iff)
  ultimately show ?thesis by simp
next
  case (Some job)
  then have "job_name \<in> set (map name jobs)"
    by (auto simp: find_Some_iff)
  moreover have "\<not> isl (find_last_completed job_name jobs m)"
    using Some by (auto simp: find_last_completed_def Let_def py_max_def split: list.splits)
  ultimately show ?thesis by simp
qed

lemma find_last_completed_error:
  "find_last_completed job_name jobs m = Inl e \<Longrightarrow> e = JobNotFound job_name"
  by (auto simp: find_last_completed_def Let_def py_max_def split: option.splits if_splits list.splits)

lemma run_jobs_append:
  "run_jobs fb p s m cp (xs @ ys) live =
     (case run_jobs fb p s m cp xs live of
        Inl e \<Rightarrow> Inl e
      | Inr (live1, t1) \<Rightarrow>
          (case run_jobs fb p s m cp ys live1 of
             Inl e \<Rightarrow> Inl e
           | Inr (live2, t2) \<Rightarrow> Inr (live2, t1 @ t2)))"
  by (induction xs arbitrary: live) (auto split: sum.splits prod.splits)

lemma process_job_succeeds:
  assumes "i < length live" and "fb \<or> name (live ! i) \<in> set (map name cp)"
  shows "\<exists>lc live'. process_job fb p s m cp live i = Inr (lc, live')"
proof (cases fb)
  case True
  from assms(1) have "live \<noteq> []" by auto
  then obtain x where "py_max completion_time live = Inr x"
    using py_max_nonempty by blast
  with True show ?thesis by (simp add: process_job_def Let_def)
next
  case False
  with assms(2) have "\<not> isl (find_last_completed (name (live ! i)) cp m)"
    by (simp add: find_last_completed_fails_iff)
  then obtain x where "find_last_completed (name (live ! i)) cp m = Inr x"
    by (cases "find_last_completed (name (live ! i)) cp m") auto
  with False show ?thesis by (simp add: process_job_def Let_def)
qed

lemma process_job_completion:
  assumes "process_job fb p s m cp live i = Inr (lc, live')" and "i < length live"
  shows "completion_time (live' ! i) =
           completion_time lc + get2 p (name (live ! i)) m + get3 s (name lc) (name (live ! i)) m"
  using assms
  by (auto simp: process_job_def Let_def complete_job_def split: sum.splits if_splits)

lemmas ordered_run_defs = calculate_makespan_def calc_makespan_def Let_def
  assigned_machines_def run_machine_def processing_order_def process_job_def
  find_last_completed_def py_max_def complete_job_def dummy_job_def

subsection \<open>The ordered-list scenario with two jobs\<close>

text \<open>
  Claim C1, as amended. Jobs A (start time 0) and B (start time 5) are alone on machine M;
  processing takes 5 for A and 3 for B, the setup from A to B takes 2 and the setup from
  the dummy job to A takes 0. When the completion time that A carries on input is 5 and
  the one that B carries is not 5, \<^verbatim>\<open>calculate_makespan\<close> sets the completion time of A
  to 5, resolves the dummy job for A and A for B, sets the completion time of B to
  5 + 3 + 2 = 10 and returns the makespan 10, in either order of the two jobs in the
  input list. The predecessor is resolved against the completion times that the jobs
  carry on input.
\<close>

theorem two_jobs_ordered_scenario:
  assumes "get2 (makeDict2 (tl lp_jobs) lp_machines process_times) ''A'' ''M'' = 5"
    and "get2 (makeDict2 (tl lp_jobs) lp_machines process_times) ''B'' ''M'' = 3"
    and "get3 (makeDict3 lp_jobs lp_jobs lp_machines setup_times) ''A'' ''B'' ''M'' = 2"
    and "get3 (makeDict3 lp_jobs lp_jobs lp_machines setup_times) ''0'' ''A'' ''M'' = 0"
    and "ctB \<noteq> 5"
  shows "calculate_makespan lp_jobs lp_machines
     [\<lparr>name = ''A'', machine = ''M'', start_time = 0, completion_time = 5, capacity = qa\<rparr>,
      \<lparr>name = ''B'', machine = ''M'', start_time = 5, completion_time = ctB, capacity = qb\<rparr>]
     process_times setup_times
   = Inr (10, [\<lparr>on_machine = ''M'',
        final_jobs =
          [\<lparr>name = ''A'', machine = ''M'', start_time = 0, completion_time = 5, capacity = qa\<rparr>,
           \<lparr>name = ''B'', machine = ''M'', start_time = 5, completion_time = 10, capacity = qb\<rparr>],
        resolved =
          [(0, dummy_job ''M''),
           (1, \<lparr>name = ''A'', machine = ''M'', start_time = 0, completion_time = 5, capacity = qa\<rparr>)],
        finish_time = 10\<rparr>])
   \<and> calculate_makespan lp_jobs lp_machines
     [\<lparr>name = ''B'', machine = ''M'', start_time = 5, completion_time = ctB, capacity = qb\<rparr>,
      \<lparr>name = ''A'', machine = ''M'', start_time = 0, completion_time = 5, capacity = qa\<rparr>]
     process_times setup_times
   = Inr (10, [\<lparr>on_machine = ''M'',
        final_jobs =
          [\<lparr>name = ''B'', machine = ''M'', start_time = 5, completion_time = 10, capacity = qb\<rparr>,
           \<lparr>name = ''A'', machine = ''M'', start_time = 0, completion_time = 5, capacity = qa\<rparr>],
        resolved =
          [(1, dummy_job ''M''),
           (0, \<lparr>name = ''A'', machine = ''M'', start_time = 0, completion_time = 5, capacity = qa\<rparr>)],
        finish_time = 10\<rparr>])"
proof (cases "ctB \<le> 5")
  case True
  with assms show ?thesis by (simp add: ordered_run_defs)
next
  case False
  with assms show ?thesis by (simp add: ordered_run_defs)
qed

text \<open>The scenario with B carrying the completion time 8 on input.\<close>

theorem two_jobs_ordered_scenario_witness:
  "calculate_makespan [''0'', ''A'', ''B''] [''M'']
     [\<lparr>name = ''A'', machine = ''M'', start_time = 0, completion_time = 5, capacity = 1\<rparr>,
      \<lparr>name = ''B'', machine = ''M'', start_time = 5, completion_time = 8, capacity = 1\<rparr>]
     [[5], [3]] [[[0], [0], [0]], [[0], [0], [2]], [[0], [0], [0]]]
   = Inr (10, [\<lparr>on_machine = ''M'',
        final_jobs =
          [\<lparr>name = ''A'', machine = ''M'', start_time = 0, completion_time = 5, capacity = 1\<rparr>,
           \<lparr>name = ''B'', machine = ''M'', start_time = 5, completion_time = 10, capacity = 1\<rparr>],
        resolved =
          [(0, dummy_job ''M''),
           (1, \<lparr>name = ''A'', machine = ''M'', start_time = 0, completion_time = 5, capacity = 1\<rparr>)],
        finish_time = 10\<rparr>])"
  using two_jobs_ordered_scenario [of "[''0'', ''A'', ''B'']" "[''M'']" "[[5], [3]]"
      "[[[0], [0], [0]], [[0], [0], [2]], [[0], [0], [0]]]" 8 1 1]
  by (simp add: makeDict3_def makeDict2_def makeDict1_def get1_def get2_def get3_def)

text \<open>
  Claim C1 as stated fails: when A carries the completion time 7 and B the completion
  time 9 on input, no job of the snapshot is completed when B starts at 5, so the
  predecessor resolved for B is the dummy job, not A; B is given the completion time
  0 + 3 + 0 = 3 and the makespan is 5.
\<close>

theorem two_jobs_ordered_scenario_counterexample:
  "calculate_makespan [''0'', ''A'', ''B''] [''M'']
     [\<lparr>name = ''A'', machine = ''M'', start_time = 0, completion_time = 7, capacity = 1\<rparr>,
      \<lparr>name = ''B'', machine = ''M'', start_time = 5, completion_time = 9, capacity = 1\<rparr>]
     [[5], [3]] [[[0], [0], [0]], [[0], [0], [2]], [[0], [0], [0]]]
   = Inr (5, [\<lparr>on_machine = ''M'',
        final_jobs =
          [\<lparr>name = ''A'', machine = ''M'', start_time = 0, completion_time = 5, capacity = 1\<rparr>,
           \<lparr>name = ''B'', machine = ''M'', start_time = 0, completion_time = 3, capacity = 1\<rparr>],
        resolved =
          [(0, \<lparr>name = ''0'', machine = ''M'', start_time = 0, completion_time = 0, capacity = 0\<rparr>),
           (1, \<lparr>name = ''0'', machine = ''M'', start_time = 0, completion_time = 0, capacity = 0\<rparr>)],
        finish_time = 5\<rparr>])"
  by (simp add: ordered_run_defs makeDict3_def makeDict2_def makeDict1_def get1_def get2_def get3_def)

subsection \<open>The predecessor in dynamic-bin mode\<close>

text \<open>
  Claim C3. In dynamic-bin mode, after any processed prefix \<open>pre\<close> of positions has left
  the live list \<open>live1\<close>, the predecessor resolved for the next position \<open>i\<close> is the
  dummy job (name "0", completion time 0) when the start time of the job is 0, and
  otherwise the job that Python's \<^verbatim>\<open>max\<close> picks from the live list: a job of the live
  list whose completion time is maximal there.
\<close>

theorem bin_predecessor_is_live_maximum:
  assumes "run_jobs True p s m cp pre live = Inr (live1, t1)" and "i < length live1"
  shows "\<exists>lc live2.
           run_jobs True p s m cp (pre @ [i]) live = Inr (live2, t1 @ [(i, lc)])
           \<and> process_job True p s m cp live1 i = Inr (lc, live2)
           \<and> (if start_time (live1 ! i) = 0
              then lc = dummy_job m \<and> name lc = ''0'' \<and> completion_time lc = 0
              else py_max completion_time live1 = Inr lc \<and> lc \<in> set live1
                   \<and> (\<forall>j\<in>set live1. completion_time j \<le> completion_time lc))"
proof -
  from assms(2) have "live1 \<noteq> []" by auto
  then obtain x where x: "py_max completion_time live1 = Inr x" "x \<in> set live1"
      "\<forall>j\<in>set live1. completion_time j \<le> completion_time x"
    using py_max_nonempty by blast
  let ?lc = "if start_time (live1 ! i) = 0 then dummy_job m else x"
  let ?live2 = "live1[i := complete_job p s m ?lc (completion_time ?lc) (live1 ! i)]"
  have step: "process_job True p s m cp live1 i = Inr (?lc, ?live2)"
    using x(1) by (simp add: process_job_def Let_def)
  have "run_jobs True p s m cp (pre @ [i]) live = Inr (?live2, t1 @ [(i, ?lc)])"
    using assms(1) step by (simp add: run_jobs_append)
  moreover have "if start_time (live1 ! i) = 0
              then ?lc = dummy_job m \<and> name ?lc = ''0'' \<and> completion_time ?lc = 0
              else py_max completion_time live1 = Inr ?lc \<and> ?lc \<in> set live1
                   \<and> (\<forall>j\<in>set live1. completion_time j \<le> completion_time ?lc)"
    using x by (simp add: dummy_job_def)
  ultimately show ?thesis using step by blast
qed

text \<open>
  Three jobs on one machine: C has start time 0, and B has the highest completion time
  when C is evaluated; the predecessor of C is the dummy job.
\<close>

theorem bin_predecessor_is_live_maximum_witness:
  "\<exists>lc live2.
     run_jobs True Map.empty Map.empty ''M'' [] [2]
       [\<lparr>name = ''A'', machine = ''M'', start_time = 1, completion_time = 4, capacity = 1\<rparr>,
        \<lparr>name = ''B'', machine = ''M'', start_time = 2, completion_time = 9, capacity = 1\<rparr>,
        \<lparr>name = ''C'', machine = ''M'', start_time = 0, completion_time = 1, capacity = 1\<rparr>]
     = Inr (live2, [(2, lc)])
     \<and> lc = dummy_job ''M'' \<and> name lc = ''0'' \<and> completion_time lc = 0"
  using bin_predecessor_is_live_maximum [of Map.empty Map.empty "''M''" "[]" "[]"
      "[\<lparr>name = ''A'', machine = ''M'', start_time = 1, completion_time = 4, capacity = 1\<rparr>,
        \<lparr>name = ''B'', machine = ''M'', start_time = 2, completion_time = 9, capacity = 1\<rparr>,
        \<lparr>name = ''C'', machine = ''M'', start_time = 0, completion_time = 1, capacity = 1\<rparr>]"
      "[\<lparr>name = ''A'', machine = ''M'', start_time = 1, completion_time = 4, capacity = 1\<rparr>,
        \<lparr>name = ''B'', machine = ''M'', start_time = 2, completion_time = 9, capacity = 1\<rparr>,
        \<lparr>name = ''C'', machine = ''M'', start_time = 0, completion_time = 1, capacity = 1\<rparr>]"
      "[]" 2]
  by auto

subsection \<open>Failure of the ordered-list resolver\<close>

text \<open>
  Claim C7. \<^verbatim>\<open>_find_last_completed\<close> fails if and only if no job of the list it is
  handed has the queried name, and then with the error that names the job. The failure
  is passed on unchanged: the step for that job fails with it, and so does the loop over
  the jobs of the machine, whatever was processed before and whatever would follow; no
  job list and no makespan is returned.
\<close>

theorem resolver_fails_iff_absent:
  "(isl (find_last_completed job_name jobs m) \<longleftrightarrow> job_name \<notin> set (map name jobs))
   \<and> (\<forall>e. find_last_completed job_name jobs m = Inl e \<longrightarrow> e = JobNotFound job_name)
   \<and> (\<forall>e. run_jobs False p s m cp pre live = Inr (live1, t1)
           \<and> find_last_completed (name (live1 ! i)) cp m = Inl e
         \<longrightarrow> process_job False p s m cp live1 i = Inl e
             \<and> run_jobs False p s m cp (pre @ i # rest) live = Inl e)"
proof (intro conjI allI impI)
  show "isl (find_last_completed job_name jobs m) \<longleftrightarrow> job_name \<notin> set (map name jobs)"
    by (rule find_last_completed_fails_iff)
next
  fix e assume "find_last_completed job_name jobs m = Inl e"
  then show "e = JobNotFound job_name" by (rule find_last_completed_error)
next
  fix e
  assume a: "run_jobs False p s m cp pre live = Inr (live1, t1)
           \<and> find_last_completed (name (live1 ! i)) cp m = Inl e"
  then show step: "process_job False p s m cp live1 i = Inl e"
    by (simp add: process_job_def Let_def)
  with a show "run_jobs False p s m cp (pre @ i # rest) live = Inl e"
    by (simp add: run_jobs_append)
qed

text \<open>A job A that is looked up in an empty snapshot.\<close>

theorem resolver_fails_iff_absent_witness:
  "isl (find_last_completed ''A'' [] ''M'')
   \<and> run_jobs False Map.empty Map.empty ''M'' [] [0]
        [\<lparr>name = ''A'', machine = ''M'', start_time = 1, completion_time = 2, capacity = 1\<rparr>]
      = Inl (JobNotFound ''A'')"
  using resolver_fails_iff_absent [of "''A''" "[]" "''M''" Map.empty Map.empty "[]" "[]"
      "[\<lparr>name = ''A'', machine = ''M'', start_time = 1, completion_time = 2, capacity = 1\<rparr>]"
      "[\<lparr>name = ''A'', machine = ''M'', start_time = 1, completion_time = 2, capacity = 1\<rparr>]"
      "[]" 0 "[]"]
  by (simp add: find_last_completed_def)

subsection \<open>The zero default of the Time Tables\<close>

text \<open>
  Claim C8. A lookup in the processing-time table for a (job, machine) pair whose job or
  machine is not a key of the table is 0, and so is a lookup in the setup-time table for
  a triple with a component that is not a key. In particular the step for a job on a
  machine unknown to the tables does not fail on the tables: it succeeds, and the job's
  completion time is its predecessor's plus 0 from each table.
\<close>

theorem absent_table_entries_are_zero:
  "(k1 \<notin> set (tl job_names) \<or> k2 \<notin> set machines
      \<longrightarrow> get2 (makeDict2 (tl job_names) machines process_times) k1 k2 = 0)
   \<and> (a \<notin> set job_names \<or> b \<notin> set job_names \<or> k3 \<notin> set machines
      \<longrightarrow> get3 (makeDict3 job_names job_names machines setup_times) a b k3 = 0)
   \<and> (m \<notin> set machines \<and> i < length live \<and> (fb \<or> name (live ! i) \<in> set (map name cp))
      \<longrightarrow> (\<exists>lc live'.
             process_job fb (makeDict2 (tl job_names) machines process_times)
               (makeDict3 job_names job_names machines setup_times) m cp live i = Inr (lc, live')
             \<and> completion_time (live' ! i) = completion_time lc + 0 + 0))"
proof (intro conjI impI)
  assume "k1 \<notin> set (tl job_names) \<or> k2 \<notin> set machines"
  then show "get2 (makeDict2 (tl job_names) machines process_times) k1 k2 = 0"
    by (rule get2_absent)
next
  assume "a \<notin> set job_names \<or> b \<notin> set job_names \<or> k3 \<notin> set machines"
  then show "get3 (makeDict3 job_names job_names machines setup_times) a b k3 = 0"
    by (rule get3_absent)
next
  let ?p = "makeDict2 (tl job_names) machines process_times"
  let ?s = "makeDict3 job_names job_names machines setup_times"
  assume a: "m \<notin> set machines \<and> i < length live \<and> (fb \<or> name (live ! i) \<in> set (map name cp))"
  then obtain lc live' where r: "process_job fb ?p ?s m cp live i = Inr (lc, live')"
    using process_job_succeeds by blast
  from a have "get2 ?p (name (live ! i)) m = 0" by (simp add: get2_absent)
  moreover from a have "get3 ?s (name lc) (name (live ! i)) m = 0" by (simp add: get3_absent)
  ultimately have "completion_time (live' ! i) = completion_time lc + 0 + 0"
    using process_job_completion [OF r] a by simp
  with r show "\<exists>lc live'. process_job fb ?p ?s m cp live i = Inr (lc, live')
             \<and> completion_time (live' ! i) = completion_time lc + 0 + 0"
    by blast
qed

text \<open>Machine X is unknown to tables that are keyed by machine M.\<close>

theorem absent_table_entries_are_zero_witness:
  "get2 (makeDict2 (tl [''0'', ''A'']) [''M''] [[5]]) ''A'' ''X'' = 0
   \<and> get3 (makeDict3 [''0'', ''A''] [''0'', ''A''] [''M''] [[[1], [2]], [[3], [4]]]) ''0'' ''A'' ''X'' = 0
   \<and> (\<exists>lc live'.
        process_job True (makeDict2 (tl [''0'', ''A'']) [''M''] [[5]])
          (makeDict3 [''0'', ''A''] [''0'', ''A''] [''M''] [[[1], [2]], [[3], [4]]]) ''X'' []
          [\<lparr>name = ''A'', machine = ''X'', start_time = 1, completion_time = 2, capacity = 1\<rparr>] 0
        = Inr (lc, live')
        \<and> completion_time (live' ! 0) = completion_time lc + 0 + 0)"
  using absent_table_entries_are_zero [of "''A''" "[''0'', ''A'']" "''X''" "[''M'']" "[[5]]"
      "''0''" "''A''" "''X''" "[[[1], [2]], [[3], [4]]]" "''X''" 0
      "[\<lparr>name = ''A'', machine = ''X'', start_time = 1, completion_time = 2, capacity = 1\<rparr>]"
      True "[]"]
  by simp

subsection \<open>The empty job list\<close>

text \<open>
  Claim C10. On an empty job list both entry points raise the error of \<^verbatim>\<open>max\<close> on an
  empty sequence; no makespan is returned.
\<close>

theorem empty_job_list_raises:
  "calculate_makespan lp_jobs lp_machines [] process_times setup_times = Inl EmptyMax
   \<and> calculate_bin_makespan [] process_times setup_times accelerators = Inl EmptyMax"
  by (simp add: calculate_makespan_def calculate_bin_makespan_def calc_makespan_def
      assigned_machines_def py_max_def)

subsection \<open>The loop over the jobs of a machine\<close>

lemma complete_job_fields [simp]:
  "name (complete_job p s m lc ns job) = name job"
  "machine (complete_job p s m lc ns job) = machine job"
  "capacity (complete_job p s m lc ns job) = capacity job"
  "start_time (complete_job p s m lc ns job) = ns"
  "completion_time (complete_job p s m lc ns job) =
     completion_time lc + get2 p (name job) m + get3 s (name lc) (name job) m"
  by (simp_all add: complete_job_def)

lemma process_job_form:
  assumes "process_job fb p s m cp live i = Inr (lc, live')"
  shows "\<exists>ns. live' = live[i := complete_job p s m lc ns (live ! i)]"
  using assms
  by (auto simp: process_job_def Let_def split: sum.splits if_splits)

lemma process_job_length:
  "process_job fb p s m cp live i = Inr (lc, live') \<Longrightarrow> length live' = length live"
  by (auto dest: process_job_form)

lemma process_job_other:
  "process_job fb p s m cp live i = Inr (lc, live') \<Longrightarrow> k \<noteq> i \<Longrightarrow> live' ! k = live ! k"
  by (auto dest: process_job_form)

lemma process_job_name:
  assumes "process_job fb p s m cp live i = Inr (lc, live')"
  shows "name (live' ! k) = name (live ! k)"
proof -
  from assms obtain ns where l: "live' = live[i := complete_job p s m lc ns (live ! i)]"
    using process_job_form by blast
  show ?thesis
  proof (cases "i < length live")
    case True
    with l show ?thesis by (cases "k = i") simp_all
  next
    case False
    with l show ?thesis by (simp add: list_update_beyond)
  qed
qed

lemma run_jobs_frame:
  assumes "run_jobs fb p s m cp ps live = Inr (final, preds)"
  shows "length final = length live \<and> map fst preds = ps
         \<and> (\<forall>k. k \<notin> set ps \<longrightarrow> final ! k = live ! k)
         \<and> (\<forall>k. name (final ! k) = name (live ! k))"
  using assms
proof (induction ps arbitrary: live final preds)
  case Nil
  then show ?case by simp
next
  case (Cons i rest)
  from Cons.prems obtain lc live' where step: "process_job fb p s m cp live i = Inr (lc, live')"
    by (auto split: sum.splits)
  with Cons.prems obtain preds' where rest: "run_jobs fb p s m cp rest live' = Inr (final, preds')"
    and preds: "preds = (i, lc) # preds'"
    by (auto split: sum.splits)
  from Cons.IH [OF rest] have ih: "length final = length live'" "map fst preds' = rest"
    "\<forall>k. k \<notin> set rest \<longrightarrow> final ! k = live' ! k" "\<forall>k. name (final ! k) = name (live' ! k)"
    by simp_all
  show ?case
    using ih preds process_job_length [OF step] process_job_other [OF step] process_job_name [OF step]
    by simp
qed

lemma run_jobs_succeeds:
  assumes "\<forall>i\<in>set ps. i < length live"
    and "fb \<or> (\<forall>i\<in>set ps. name (live ! i) \<in> set (map name cp))"
  shows "\<exists>final preds. run_jobs fb p s m cp ps live = Inr (final, preds)"
  using assms
proof (induction ps arbitrary: live)
  case Nil
  then show ?case by simp
next
  case (Cons i rest)
  from Cons.prems obtain lc live' where step: "process_job fb p s m cp live i = Inr (lc, live')"
    using process_job_succeeds [of i live fb cp p s m] by auto
  have "\<forall>k\<in>set rest. k < length live'"
    using Cons.prems(1) process_job_length [OF step] by simp
  moreover have "fb \<or> (\<forall>k\<in>set rest. name (live' ! k) \<in> set (map name cp))"
    using Cons.prems(2) process_job_name [OF step] by auto
  ultimately obtain final preds where "run_jobs fb p s m cp rest live' = Inr (final, preds)"
    using Cons.IH by blast
  with step show ?case by simp
qed

lemma run_jobs_logged:
  assumes "run_jobs fb p s m cp ps live = Inr (final, preds)"
    and "distinct ps" and "\<forall>i\<in>set ps. i < length live"
    and "(i, lc) \<in> set preds"
  shows "completion_time (final ! i) =
           completion_time lc + get2 p (name (live ! i)) m + get3 s (name lc) (name (live ! i)) m"
  using assms
proof (induction ps arbitrary: live final preds)
  case Nil
  then show ?case by simp
next
  case (Cons j rest)
  from Cons.prems(1) obtain lc0 live' where step: "process_job fb p s m cp live j = Inr (lc0, live')"
    by (auto split: sum.splits)
  with Cons.prems(1) obtain preds' where rest: "run_jobs fb p s m cp rest live' = Inr (final, preds')"
    and preds: "preds = (j, lc0) # preds'"
    by (auto split: sum.splits)
  from Cons.prems(4) preds consider "(i, lc) = (j, lc0)" | "(i, lc) \<in> set preds'" by auto
  then show ?case
  proof cases
    case 1
    from Cons.prems(2) have "j \<notin> set rest" by simp
    then have "final ! j = live' ! j" using run_jobs_frame [OF rest] by simp
    moreover have "j < length live" using Cons.prems(3) by simp
    ultimately show ?thesis
      using 1 process_job_completion [OF step] by simp
  next
    case 2
    have "\<forall>k\<in>set rest. k < length live'"
      using Cons.prems(3) process_job_length [OF step] by simp
    with Cons.IH [OF rest _ _ 2] Cons.prems(2)
    have "completion_time (final ! i) =
           completion_time lc + get2 p (name (live' ! i)) m + get3 s (name lc) (name (live' ! i)) m"
      by simp
    then show ?thesis using process_job_name [OF step] by simp
  qed
qed

lemma processing_order_set [simp]: "set (processing_order js) = {0..<length js}"
  by (simp add: processing_order_def)

lemma processing_order_distinct [simp]: "distinct (processing_order js)"
  by (simp add: processing_order_def)

lemma py_max_id: "xs \<noteq> [] \<Longrightarrow> py_max (\<lambda>t. t) xs = Inr (Max (set xs))"
proof -
  assume ne: "xs \<noteq> []"
  then obtain x where x: "py_max (\<lambda>t. t) xs = Inr x" "x \<in> set xs" "\<forall>y\<in>set xs. y \<le> x"
    using py_max_nonempty [of xs "\<lambda>t. t"] by blast
  then have "Max (set xs) = x"
    by (intro Max_eqI) auto
  with x show ?thesis by simp
qed

lemma run_machine_succeeds:
  assumes "js \<noteq> []"
  shows "\<exists>final preds. run_jobs fb p s m js (processing_order js) js = Inr (final, preds)
           \<and> length final = length js
           \<and> run_machine fb p s (m, js) =
               Inr \<lparr>on_machine = m, final_jobs = final, resolved = preds,
                    finish_time = Max (set (map completion_time final))\<rparr>"
proof -
  have "\<forall>i\<in>set (processing_order js). i < length js" by simp
  moreover have "fb \<or> (\<forall>i\<in>set (processing_order js). name (js ! i) \<in> set (map name js))"
    by simp
  ultimately obtain final preds where r: "run_jobs fb p s m js (processing_order js) js = Inr (final, preds)"
    using run_jobs_succeeds by blast
  then have len: "length final = length js" using run_jobs_frame by blast
  with assms have "map completion_time final \<noteq> []" by auto
  then have "py_max (\<lambda>t. t) (map completion_time final) = Inr (Max (set (map completion_time final)))"
    by (rule py_max_id)
  with r len show ?thesis by (simp add: run_machine_def)
qed

subsection \<open>The partition by machine and the loop over the machines\<close>

lemma append_job_keys:
  "map fst (append_job job acc) =
     (if machine job \<in> set (map fst acc) then map fst acc else map fst acc @ [machine job])"
  by (induction job acc rule: append_job.induct) auto

lemma append_job_new:
  "machine job \<notin> set (map fst acc) \<Longrightarrow> append_job job acc = acc @ [(machine job, [job])]"
  by (induction job acc rule: append_job.induct) auto

lemma append_job_entries:
  assumes "distinct (map fst acc)" and "(m, js) \<in> set (append_job job acc)"
  shows "(m \<noteq> machine job \<and> (m, js) \<in> set acc)
         \<or> (m = machine job \<and> (\<exists>js0. (m, js0) \<in> set acc \<and> js = js0 @ [job]))
         \<or> (m = machine job \<and> m \<notin> set (map fst acc) \<and> js = [job])"
  using assms
proof (induction job acc rule: append_job.induct)
  case (1 job)
  then show ?case by simp
next
  case (2 job m' js' rest)
  show ?case
  proof (cases "m' = machine job")
    case True
    with "2.prems" show ?thesis by (auto simp: rev_image_eqI)
  next
    case False
    with "2.prems" "2.IH" show ?thesis by auto
  qed
qed

lemma grouped_append_job:
  assumes "grouped acc seen"
  shows "grouped (append_job job acc) (seen @ [job])"
proof -
  from assms have d: "distinct (map fst acc)" and k: "set (map fst acc) = set (map machine seen)"
    and e: "\<And>m js. (m, js) \<in> set acc \<Longrightarrow> js = filter (\<lambda>j. machine j = m) seen"
    by (auto simp: grouped_def)
  have "distinct (map fst (append_job job acc))"
    using d by (simp add: append_job_keys)
  moreover have "set (map fst (append_job job acc)) = set (map machine (seen @ [job]))"
    using k by (auto simp: append_job_keys)
  moreover have "js = filter (\<lambda>j. machine j = m) (seen @ [job])"
    if "(m, js) \<in> set (append_job job acc)" for m js
  proof -
    from append_job_entries [OF d that]
    consider "m \<noteq> machine job" "(m, js) \<in> set acc"
      | js0 where "m = machine job" "(m, js0) \<in> set acc" "js = js0 @ [job]"
      | "m = machine job" "m \<notin> set (map fst acc)" "js = [job]"
      by blast
    then show ?thesis
    proof cases
      case 1
      then show ?thesis using e by auto
    next
      case 2
      then show ?thesis using e by auto
    next
      case 3
      from 3(2) k have "\<forall>j\<in>set seen. machine j \<noteq> m" by auto
      then have "filter (\<lambda>j. machine j = m) seen = []" by (simp add: filter_empty_conv)
      with 3 show ?thesis by simp
    qed
  qed
  ultimately show ?thesis by (simp add: grouped_def)
qed

lemma grouped_fold:
  "grouped acc seen \<Longrightarrow> grouped (fold append_job jobs acc) (seen @ jobs)"
proof (induction jobs arbitrary: acc seen)
  case Nil
  then show ?case by simp
next
  case (Cons job jobs)
  from Cons.IH [OF grouped_append_job [OF Cons.prems, of job]]
  show ?case by simp
qed

lemma grouped_assigned_machines: "grouped (assigned_machines jobs) jobs"
  using grouped_fold [of "[]" "[]" jobs]
  by (simp add: assigned_machines_def grouped_def)

lemma assigned_machines_entry:
  "(m, js) \<in> set (assigned_machines jobs) \<Longrightarrow>
     js = filter (\<lambda>j. machine j = m) jobs \<and> js \<noteq> [] \<and> m \<in> set (map machine jobs)"
proof -
  assume a: "(m, js) \<in> set (assigned_machines jobs)"
  have g: "grouped (assigned_machines jobs) jobs" by (rule grouped_assigned_machines)
  from a g have js: "js = filter (\<lambda>j. machine j = m) jobs" by (auto simp: grouped_def)
  from a have "m \<in> set (map fst (assigned_machines jobs))" by force
  with g have m: "m \<in> set (map machine jobs)" by (simp add: grouped_def)
  then have "filter (\<lambda>j. machine j = m) jobs \<noteq> []" by (auto simp: filter_empty_conv)
  with js m show ?thesis by simp
qed

lemma assigned_machines_has:
  "job \<in> set jobs \<Longrightarrow>
     (machine job, filter (\<lambda>j. machine j = machine job) jobs) \<in> set (assigned_machines jobs)"
proof -
  assume a: "job \<in> set jobs"
  have g: "grouped (assigned_machines jobs) jobs" by (rule grouped_assigned_machines)
  from a g have "machine job \<in> set (map fst (assigned_machines jobs))"
    by (simp add: grouped_def)
  then obtain js where "(machine job, js) \<in> set (assigned_machines jobs)" by auto
  with assigned_machines_entry [OF this] show ?thesis by simp
qed

lemma assigned_machines_empty_iff: "assigned_machines jobs = [] \<longleftrightarrow> jobs = []"
proof
  assume "assigned_machines jobs = []"
  then show "jobs = []"
    using assigned_machines_has [of _ jobs] by (cases jobs) auto
next
  assume "jobs = []"
  then show "assigned_machines jobs = []" by (simp add: assigned_machines_def)
qed

lemma run_machines_Inr_iff:
  "run_machines fb p s es = Inr rs \<longleftrightarrow> map (run_machine fb p s) es = map Inr rs"
proof (induction es arbitrary: rs)
  case Nil
  then show ?case by auto
next
  case (Cons e es)
  show ?case
  proof (cases "run_machine fb p s e")
    case (Inl err)
    then show ?thesis by (cases rs) auto
  next
    case (Inr r)
    show ?thesis
    proof (cases "run_machines fb p s es")
      case (Inl err)
      have "map (run_machine fb p s) es \<noteq> map Inr rs'" for rs'
        using Cons.IH [of rs'] Inl by auto
      with Inl Inr show ?thesis by (cases rs) auto
    next
      case (Inr rs')
      with Cons.IH [of rs'] have m: "map (run_machine fb p s) es = map Inr rs'" by simp
      show ?thesis using Inr \<open>run_machine fb p s e = Inr r\<close> m
        by (cases rs) (auto simp: inj_map_eq_map [OF inj_Inr])
    qed
  qed
qed

lemma run_machines_succeeds:
  assumes "\<forall>e\<in>set es. snd e \<noteq> []"
  shows "\<exists>rs. run_machines fb p s es = Inr rs"
  using assms
proof (induction es)
  case Nil
  then show ?case by simp
next
  case (Cons e es)
  obtain m js where e: "e = (m, js)" by (cases e)
  with Cons.prems have "js \<noteq> []" by simp
  then obtain r where "run_machine fb p s (m, js) = Inr r"
    using run_machine_succeeds [of js fb p s m] by blast
  moreover from Cons obtain rs where "run_machines fb p s es = Inr rs" by auto
  ultimately show ?case using e by simp
qed

lemma run_machines_assigned_succeeds:
  "\<exists>rs. run_machines fb p s (assigned_machines jobs) = Inr rs"
  by (rule run_machines_succeeds) (auto dest: assigned_machines_entry)

lemma run_machine_on_machine:
  "run_machine fb p s (m, js) = Inr r \<Longrightarrow> on_machine r = m"
  by (auto simp: run_machine_def split: sum.splits)

lemma run_machines_on_machine:
  "run_machines fb p s es = Inr rs \<Longrightarrow> map on_machine rs = map fst es"
proof (induction es arbitrary: rs)
  case Nil
  then show ?case by simp
next
  case (Cons e es)
  then show ?case
    by (cases e) (auto split: sum.splits dest: run_machine_on_machine)
qed

lemma calc_makespan_result:
  assumes "jobs \<noteq> []"
  shows "\<exists>rs. run_machines fb (makeDict2 (tl jn) ms P) (makeDict3 jn jn ms S) (assigned_machines jobs) = Inr rs
           \<and> rs \<noteq> []
           \<and> calc_makespan jobs P S jn ms fb = Inr (Max (set (map finish_time rs)), rs)"
proof -
  obtain rs where rs: "run_machines fb (makeDict2 (tl jn) ms P) (makeDict3 jn jn ms S) (assigned_machines jobs) = Inr rs"
    using run_machines_assigned_succeeds by blast
  then have "map on_machine rs = map fst (assigned_machines jobs)"
    by (rule run_machines_on_machine)
  with assms have ne: "rs \<noteq> []" by (auto simp: assigned_machines_empty_iff)
  then have "py_max (\<lambda>t. t) (map finish_time rs) = Inr (Max (set (map finish_time rs)))"
    by (intro py_max_id) simp
  with rs ne show ?thesis by (simp add: calc_makespan_def)
qed

subsection \<open>Independence of the machines\<close>

lemma complete_job_cong:
  assumes "\<And>j. get2 p j m = get2 p' j m" and "\<And>a b. get3 s a b m = get3 s' a b m"
  shows "complete_job p s m lc ns job = complete_job p' s' m lc ns job"
  by (simp add: complete_job_def assms)

lemma process_job_cong:
  assumes "\<And>j. get2 p j m = get2 p' j m" and "\<And>a b. get3 s a b m = get3 s' a b m"
  shows "process_job fb p s m cp live i = process_job fb p' s' m cp live i"
  unfolding process_job_def complete_job_cong [of p m p' s s', OF assms] ..

lemma run_jobs_cong:
  assumes "\<And>j. get2 p j m = get2 p' j m" and "\<And>a b. get3 s a b m = get3 s' a b m"
  shows "run_jobs fb p s m cp ps live = run_jobs fb p' s' m cp ps live"
proof (induction ps arbitrary: live)
  case Nil
  show ?case by simp
next
  case (Cons i rest)
  have "process_job fb p s m cp live i = process_job fb p' s' m cp live i"
    using assms by (rule process_job_cong)
  with Cons show ?case by (auto split: sum.splits)
qed

lemma run_machine_cong:
  assumes "\<And>j. get2 p j m = get2 p' j m" and "\<And>a b. get3 s a b m = get3 s' a b m"
  shows "run_machine fb p s (m, js) = run_machine fb p' s' (m, js)"
  using run_jobs_cong [of p m p' s s', OF assms] by (simp add: run_machine_def)

lemma run_machines_off_machine:
  assumes "\<And>j m. m \<noteq> M2 \<Longrightarrow> get2 p j m = get2 p' j m"
    and "\<And>a b m. m \<noteq> M2 \<Longrightarrow> get3 s a b m = get3 s' a b m"
    and "run_machines fb p s es = Inr rs" and "run_machines fb p' s' es = Inr rs'"
  shows "filter (\<lambda>r. on_machine r \<noteq> M2) rs = filter (\<lambda>r. on_machine r \<noteq> M2) rs'"
  using assms(3,4)
proof (induction es arbitrary: rs rs')
  case Nil
  then show ?case by simp
next
  case (Cons e es)
  obtain m js where e: "e = (m, js)" by (cases e)
  from Cons.prems(1) e obtain r rest where r: "run_machine fb p s (m, js) = Inr r"
    "run_machines fb p s es = Inr rest" "rs = r # rest"
    by (auto split: sum.splits)
  from Cons.prems(2) e obtain r' rest' where r': "run_machine fb p' s' (m, js) = Inr r'"
    "run_machines fb p' s' es = Inr rest'" "rs' = r' # rest'"
    by (auto split: sum.splits)
  have ih: "filter (\<lambda>r. on_machine r \<noteq> M2) rest = filter (\<lambda>r. on_machine r \<noteq> M2) rest'"
    using Cons.IH r(2) r'(2) by simp
  have om: "on_machine r = m" "on_machine r' = m"
    using r(1) r'(1) by (auto dest: run_machine_on_machine)
  show ?case
  proof (cases "m = M2")
    case True
    with om ih r(3) r'(3) show ?thesis by simp
  next
    case False
    then have "run_machine fb p s (m, js) = run_machine fb p' s' (m, js)"
      using assms(1,2) by (intro run_machine_cong) auto
    with r(1) r'(1) have "r = r'" by simp
    with ih r(3) r'(3) show ?thesis by simp
  qed
qed

lemma run_machine_names:
  assumes "run_machine fb p s (m, js) = Inr r"
  shows "map name (final_jobs r) = map name js"
proof -
  from assms obtain final preds where f: "run_jobs fb p s m js (processing_order js) js = Inr (final, preds)"
    and r: "final_jobs r = final"
    by (auto simp: run_machine_def split: sum.splits)
  from run_jobs_frame [OF f] have "length final = length js" "\<forall>k. name (final ! k) = name (js ! k)"
    by simp_all
  then have "map name final = map name js"
    by (intro nth_equalityI) simp_all
  with r show ?thesis by simp
qed

lemma run_machines_member:
  assumes "run_machines fb p s es = Inr rs" and "e \<in> set es"
  shows "\<exists>r\<in>set rs. run_machine fb p s e = Inr r"
proof -
  from assms(1) have "map (run_machine fb p s) es = map Inr rs"
    by (simp add: run_machines_Inr_iff)
  moreover from assms(2) have "run_machine fb p s e \<in> set (map (run_machine fb p s) es)" by simp
  ultimately show ?thesis by auto
qed

text \<open>
  Claim C9. Two runs of the propagator on the same jobs, in the same mode, whose Time
  Tables agree on every lookup for a machine other than M2, both return, and their
  results for the machines other than M2 are the same: the jobs as the run leaves them
  (so every computed completion time) and the finish time of the machine. Every job
  assigned to a machine other than M2 is among the jobs of such a result.
\<close>

theorem cross_machine_independence:
  assumes "\<forall>j m. m \<noteq> M2 \<longrightarrow>
             get2 (makeDict2 (tl job_names) machines P) j m = get2 (makeDict2 (tl job_names) machines P') j m"
    and "\<forall>a b m. m \<noteq> M2 \<longrightarrow>
             get3 (makeDict3 job_names job_names machines S) a b m
               = get3 (makeDict3 job_names job_names machines S') a b m"
    and "jobs \<noteq> []"
  shows "\<exists>mk rs mk' rs'.
           calc_makespan jobs P S job_names machines for_bin = Inr (mk, rs)
           \<and> calc_makespan jobs P' S' job_names machines for_bin = Inr (mk', rs')
           \<and> filter (\<lambda>r. on_machine r \<noteq> M2) rs = filter (\<lambda>r. on_machine r \<noteq> M2) rs'
           \<and> (\<forall>job\<in>set jobs. machine job \<noteq> M2 \<longrightarrow>
                 (\<exists>r. r \<in> set rs \<and> r \<in> set rs' \<and> on_machine r = machine job
                      \<and> map name (final_jobs r)
                          = map name (filter (\<lambda>j. machine j = machine job) jobs)))"
proof -
  let ?p = "makeDict2 (tl job_names) machines P" and ?p' = "makeDict2 (tl job_names) machines P'"
  let ?s = "makeDict3 job_names job_names machines S" and ?s' = "makeDict3 job_names job_names machines S'"
  let ?es = "assigned_machines jobs"
  from calc_makespan_result [OF assms(3)] obtain rs where
    rs: "run_machines for_bin ?p ?s ?es = Inr rs"
    and c: "calc_makespan jobs P S job_names machines for_bin = Inr (Max (set (map finish_time rs)), rs)"
    by blast
  from calc_makespan_result [OF assms(3)] obtain rs' where
    rs': "run_machines for_bin ?p' ?s' ?es = Inr rs'"
    and c': "calc_makespan jobs P' S' job_names machines for_bin = Inr (Max (set (map finish_time rs')), rs')"
    by blast
  have eq: "filter (\<lambda>r. on_machine r \<noteq> M2) rs = filter (\<lambda>r. on_machine r \<noteq> M2) rs'"
    using assms(1,2) rs rs' by (intro run_machines_off_machine [of M2 ?p ?p' ?s ?s' for_bin ?es]) auto
  have cover: "\<exists>r. r \<in> set rs \<and> r \<in> set rs' \<and> on_machine r = machine job
                 \<and> map name (final_jobs r) = map name (filter (\<lambda>j. machine j = machine job) jobs)"
    if "job \<in> set jobs" and "machine job \<noteq> M2" for job
  proof -
    let ?e = "(machine job, filter (\<lambda>j. machine j = machine job) jobs)"
    from that(1) have mem: "?e \<in> set ?es" by (rule assigned_machines_has)
    from run_machines_member [OF rs mem] obtain r where r: "r \<in> set rs" "run_machine for_bin ?p ?s ?e = Inr r"
      by blast
    from r(2) have om: "on_machine r = machine job" by (rule run_machine_on_machine)
    with r(1) that(2) have "r \<in> set (filter (\<lambda>r. on_machine r \<noteq> M2) rs)" by simp
    with eq have "r \<in> set rs'" by simp
    with r om run_machine_names [OF r(2)] show ?thesis by blast
  qed
  from c c' eq cover show ?thesis by blast
qed

text \<open>Two machines; only the processing times on M2 differ.\<close>

theorem cross_machine_independence_witness:
  "\<exists>mk rs mk' rs'.
     calc_makespan
       [\<lparr>name = ''A'', machine = ''M1'', start_time = 0, completion_time = 0, capacity = 1\<rparr>,
        \<lparr>name = ''B'', machine = ''M2'', start_time = 0, completion_time = 0, capacity = 1\<rparr>]
       [[5, 1], [3, 2]] [[[0, 0], [0, 0], [0, 0]], [[0, 0], [0, 0], [0, 0]], [[0, 0], [0, 0], [0, 0]]] [''0'', ''A'', ''B''] [''M1'', ''M2''] False = Inr (mk, rs)
     \<and> calc_makespan
       [\<lparr>name = ''A'', machine = ''M1'', start_time = 0, completion_time = 0, capacity = 1\<rparr>,
        \<lparr>name = ''B'', machine = ''M2'', start_time = 0, completion_time = 0, capacity = 1\<rparr>]
       [[5, 7], [3, 9]] [[[0, 0], [0, 0], [0, 0]], [[0, 0], [0, 0], [0, 0]], [[0, 0], [0, 0], [0, 0]]] [''0'', ''A'', ''B''] [''M1'', ''M2''] False = Inr (mk', rs')
     \<and> filter (\<lambda>r. on_machine r \<noteq> ''M2'') rs = filter (\<lambda>r. on_machine r \<noteq> ''M2'') rs'"
proof -
  have p: "\<forall>j m. m \<noteq> ''M2'' \<longrightarrow>
      get2 (makeDict2 (tl [''0'', ''A'', ''B'']) [''M1'', ''M2''] [[5, 1], [3, 2]]) j m
      = get2 (makeDict2 (tl [''0'', ''A'', ''B'']) [''M1'', ''M2''] [[5, 7], [3, 9]]) j m"
    by (simp add: makeDict2_def makeDict1_def get2_def get1_def)
  have s: "\<forall>a b m. m \<noteq> ''M2'' \<longrightarrow>
      get3 (makeDict3 [''0'', ''A'', ''B''] [''0'', ''A'', ''B''] [''M1'', ''M2'']
          [[[0, 0], [0, 0], [0, 0]], [[0, 0], [0, 0], [0, 0]], [[0, 0], [0, 0], [0, 0]]]) a b m
      = get3 (makeDict3 [''0'', ''A'', ''B''] [''0'', ''A'', ''B''] [''M1'', ''M2'']
          [[[0, 0], [0, 0], [0, 0]], [[0, 0], [0, 0], [0, 0]], [[0, 0], [0, 0], [0, 0]]]) a b m"
    by simp
  have ne: "[\<lparr>name = ''A'', machine = ''M1'', start_time = 0, completion_time = 0, capacity = 1\<rparr>,
        \<lparr>name = ''B'', machine = ''M2'', start_time = 0, completion_time = 0, capacity = 1\<rparr>] \<noteq> []"
    by simp
  from cross_machine_independence [OF p s ne, of False] show ?thesis by blast
qed

subsection \<open>One job on each machine\<close>

lemma fold_append_job_distinct:
  assumes "distinct (map machine jobs)" and "set (map machine jobs) \<inter> set (map fst acc) = {}"
  shows "fold append_job jobs acc = acc @ map (\<lambda>j. (machine j, [j])) jobs"
  using assms
proof (induction jobs arbitrary: acc)
  case Nil
  then show ?case by simp
next
  case (Cons job jobs)
  from Cons.prems(2) have new: "machine job \<notin> set (map fst acc)" by auto
  then have a: "append_job job acc = acc @ [(machine job, [job])]" by (rule append_job_new)
  have "set (map machine jobs) \<inter> set (map fst (acc @ [(machine job, [job])])) = {}"
    using Cons.prems by auto
  with Cons.IH [of "acc @ [(machine job, [job])]"] Cons.prems(1) a show ?case by simp
qed

lemma assigned_machines_distinct:
  "distinct (map machine jobs) \<Longrightarrow> assigned_machines jobs = map (\<lambda>j. (machine j, [j])) jobs"
  using fold_append_job_distinct [of jobs "[]"] by (simp add: assigned_machines_def)

lemma run_machine_single_ordered:
  "run_machine False p s (m, [job]) =
     (let lc = (if start_time job = 0 \<or> start_time job < completion_time job then dummy_job m else job);
          ns = (if name lc = name job then completion_time job else 0);
          job' = complete_job p s m lc ns job
      in Inr \<lparr>on_machine = m, final_jobs = [job'], resolved = [(0, lc)],
              finish_time = completion_time job'\<rparr>)"
  by (simp add: run_machine_def processing_order_def process_job_def find_last_completed_def
      py_max_def Let_def)

lemma run_machine_single_bin:
  "run_machine True p s (m, [job]) =
     (let lc = (if start_time job = 0 then dummy_job m else job);
          job' = complete_job p s m lc (completion_time lc) job
      in Inr \<lparr>on_machine = m, final_jobs = [job'], resolved = [(0, lc)],
              finish_time = completion_time job'\<rparr>)"
  by (simp add: run_machine_def processing_order_def process_job_def py_max_def Let_def)

lemma run_machine_single_agree:
  assumes "start_time job = 0 \<or> completion_time job \<le> start_time job"
  shows "\<exists>r r'. run_machine False p s (m, [job]) = Inr r \<and> run_machine True p s (m, [job]) = Inr r'
           \<and> finish_time r = finish_time r'"
  using assms
  by (auto simp: run_machine_single_ordered run_machine_single_bin Let_def)

lemma run_machines_single_agree:
  assumes "\<forall>j\<in>set jobs. start_time j = 0 \<or> completion_time j \<le> start_time j"
  shows "\<exists>rs rs'. run_machines False p s (map (\<lambda>j. (machine j, [j])) jobs) = Inr rs
           \<and> run_machines True p s (map (\<lambda>j. (machine j, [j])) jobs) = Inr rs'
           \<and> map finish_time rs = map finish_time rs'"
  using assms
proof (induction jobs)
  case Nil
  then show ?case by simp
next
  case (Cons job jobs)
  from Cons.prems have "start_time job = 0 \<or> completion_time job \<le> start_time job" by simp
  from run_machine_single_agree [OF this, of p s "machine job"]
  obtain r r' where r: "run_machine False p s (machine job, [job]) = Inr r"
    "run_machine True p s (machine job, [job]) = Inr r'" "finish_time r = finish_time r'"
    by blast
  from Cons obtain rs rs' where rs: "run_machines False p s (map (\<lambda>j. (machine j, [j])) jobs) = Inr rs"
    "run_machines True p s (map (\<lambda>j. (machine j, [j])) jobs) = Inr rs'"
    "map finish_time rs = map finish_time rs'"
    by auto
  from r rs show ?case by simp
qed

lemma calc_makespan_single_agree:
  assumes "distinct (map machine jobs)"
    and "\<forall>j\<in>set jobs. start_time j = 0 \<or> completion_time j \<le> start_time j"
  shows "map_sum (\<lambda>e. e) fst (calc_makespan jobs P S jn ms False)
           = map_sum (\<lambda>e. e) fst (calc_makespan jobs P S jn ms True)"
proof -
  let ?p = "makeDict2 (tl jn) ms P" and ?s = "makeDict3 jn jn ms S"
  from run_machines_single_agree [OF assms(2), of ?p ?s]
  obtain rs rs' where rs: "run_machines False ?p ?s (map (\<lambda>j. (machine j, [j])) jobs) = Inr rs"
    "run_machines True ?p ?s (map (\<lambda>j. (machine j, [j])) jobs) = Inr rs'"
    "map finish_time rs = map finish_time rs'"
    by blast
  then show ?thesis
    by (simp add: calc_makespan_def assigned_machines_distinct [OF assms(1)] split: sum.splits)
qed

text \<open>
  Claim C4, as amended. When every machine holds exactly one job, and every job either
  has the start time 0 or carries on input a completion time that is not after its
  start time, the two entry points, given the same jobs, tables and machines (the LP
  instance lists the dummy name and the jobs' names, and the machines of the
  accelerators), return the same makespan; they return one whenever there is a job.
\<close>

theorem single_job_policies_agree:
  assumes "distinct (map machine jobs)"
    and "\<forall>j\<in>set jobs. start_time j = 0 \<or> completion_time j \<le> start_time j"
  shows "map_sum (\<lambda>e. e) fst
             (calculate_makespan (''0'' # map name jobs) (map fst accelerators) jobs P S)
           = map_sum (\<lambda>e. e) fst (calculate_bin_makespan jobs P S accelerators)
         \<and> (jobs \<noteq> [] \<longrightarrow>
              (\<exists>mk rs. calculate_bin_makespan jobs P S accelerators = Inr (mk, rs)))"
proof
  show "map_sum (\<lambda>e. e) fst
             (calculate_makespan (''0'' # map name jobs) (map fst accelerators) jobs P S)
           = map_sum (\<lambda>e. e) fst (calculate_bin_makespan jobs P S accelerators)"
    using calc_makespan_single_agree [OF assms]
    by (simp add: calculate_makespan_def calculate_bin_makespan_def)
next
  show "jobs \<noteq> [] \<longrightarrow> (\<exists>mk rs. calculate_bin_makespan jobs P S accelerators = Inr (mk, rs))"
  proof
    assume "jobs \<noteq> []"
    from calc_makespan_result [OF this, of True "''0'' # map name jobs" "map fst accelerators" P S]
    show "\<exists>mk rs. calculate_bin_makespan jobs P S accelerators = Inr (mk, rs)"
      unfolding calculate_bin_makespan_def Let_def by blast
  qed
qed

text \<open>Two machines with one job each; one job starts at 0, the other one is late.\<close>

theorem single_job_policies_agree_witness:
  "map_sum (\<lambda>e. e) fst
     (calculate_makespan
        (''0'' # map name
           [\<lparr>name = ''A'', machine = ''M1'', start_time = 0, completion_time = 4, capacity = 1\<rparr>,
            \<lparr>name = ''B'', machine = ''M2'', start_time = 3, completion_time = 2, capacity = 1\<rparr>])
        (map fst [(''M1'', 5), (''M2'', 5)])
        [\<lparr>name = ''A'', machine = ''M1'', start_time = 0, completion_time = 4, capacity = 1\<rparr>,
         \<lparr>name = ''B'', machine = ''M2'', start_time = 3, completion_time = 2, capacity = 1\<rparr>]
        [[5, 1], [3, 2]] [[[0, 0], [0, 0], [0, 0]], [[0, 0], [0, 0], [0, 0]], [[0, 0], [0, 0], [0, 0]]])
   = map_sum (\<lambda>e. e) fst
     (calculate_bin_makespan
        [\<lparr>name = ''A'', machine = ''M1'', start_time = 0, completion_time = 4, capacity = 1\<rparr>,
         \<lparr>name = ''B'', machine = ''M2'', start_time = 3, completion_time = 2, capacity = 1\<rparr>]
        [[5, 1], [3, 2]] [[[0, 0], [0, 0], [0, 0]], [[0, 0], [0, 0], [0, 0]], [[0, 0], [0, 0], [0, 0]]] [(''M1'', 5), (''M2'', 5)])
   \<and> (\<exists>mk rs. calculate_bin_makespan
        [\<lparr>name = ''A'', machine = ''M1'', start_time = 0, completion_time = 4, capacity = 1\<rparr>,
         \<lparr>name = ''B'', machine = ''M2'', start_time = 3, completion_time = 2, capacity = 1\<rparr>]
        [[5, 1], [3, 2]] [[[0, 0], [0, 0], [0, 0]], [[0, 0], [0, 0], [0, 0]], [[0, 0], [0, 0], [0, 0]]] [(''M1'', 5), (''M2'', 5)] = Inr (mk, rs))"
  using single_job_policies_agree
    [of "[\<lparr>name = ''A'', machine = ''M1'', start_time = 0, completion_time = 4, capacity = 1\<rparr>,
         \<lparr>name = ''B'', machine = ''M2'', start_time = 3, completion_time = 2, capacity = 1\<rparr>]"
        "[(''M1'', 5), (''M2'', 5)]" "[[5, 1], [3, 2]]"
        "[[[0, 0], [0, 0], [0, 0]], [[0, 0], [0, 0], [0, 0]], [[0, 0], [0, 0], [0, 0]]]"]
  by simp

text \<open>
  Claim C4 as stated fails: a single job A with start time 1 that carries the completion
  time 2 on input, with processing time 1 and no setup. In ordered-list mode no job
  completes before A starts, so A follows the dummy job and the makespan is 1; in
  dynamic-bin mode A is the job with the maximal completion time, follows itself, and the
  makespan is 2 + 1 = 3.
\<close>

theorem single_job_policies_agree_counterexample:
  "map_sum (\<lambda>e. e) fst
     (calculate_makespan [''0'', ''A''] [''M'']
        [\<lparr>name = ''A'', machine = ''M'', start_time = 1, completion_time = 2, capacity = 1\<rparr>]
        [[1]] [[[0], [0]], [[0], [0]]]) = Inr 1
   \<and> map_sum (\<lambda>e. e) fst
     (calculate_bin_makespan
        [\<lparr>name = ''A'', machine = ''M'', start_time = 1, completion_time = 2, capacity = 1\<rparr>]
        [[1]] [[[0], [0]], [[0], [0]]] [(''M'', 1)]) = Inr 3"
  by (simp add: calculate_makespan_def calculate_bin_makespan_def calc_makespan_def
      assigned_machines_def run_machine_single_ordered run_machine_single_bin py_max_def
      complete_job_def dummy_job_def Let_def
      makeDict3_def makeDict2_def makeDict1_def get1_def get2_def get3_def)

subsection \<open>Tables that are zero throughout\<close>

lemma get1_all_zero: "\<forall>t\<in>set row. t = 0 \<Longrightarrow> get1 (makeDict1 hs row) k = 0"
proof (cases "makeDict1 hs row k")
  case None
  then show ?thesis by (simp add: get1_def)
next
  case (Some v)
  assume z: "\<forall>t\<in>set row. t = 0"
  from Some have "v \<in> set row" unfolding makeDict1_def by (rule map_upds_empty_SomeD)
  with z Some show ?thesis by (simp add: get1_def)
qed

lemma get2_all_zero:
  assumes "\<forall>row\<in>set P. \<forall>t\<in>set row. t = 0"
  shows "get2 (makeDict2 hs1 hs2 P) k1 k2 = 0"
proof (cases "makeDict2 hs1 hs2 P k1")
  case None
  then show ?thesis by (simp add: get2_def)
next
  case (Some d)
  then have "d \<in> set (map (makeDict1 hs2) P)"
    unfolding makeDict2_def by (rule map_upds_empty_SomeD)
  then obtain row where "row \<in> set P" "d = makeDict1 hs2 row" by auto
  with assms Some show ?thesis by (simp add: get2_def get1_all_zero)
qed

lemma get3_all_zero:
  assumes "\<forall>plane\<in>set S. \<forall>row\<in>set plane. \<forall>t\<in>set row. t = 0"
  shows "get3 (makeDict3 hs1 hs2 hs3 S) k1 k2 k3 = 0"
proof (cases "makeDict3 hs1 hs2 hs3 S k1")
  case None
  then show ?thesis by (simp add: get3_def)
next
  case (Some d)
  then have "d \<in> set (map (makeDict2 hs2 hs3) S)"
    unfolding makeDict3_def by (rule map_upds_empty_SomeD)
  then obtain plane where "plane \<in> set S" "d = makeDict2 hs2 hs3 plane" by auto
  with assms Some show ?thesis by (simp add: get3_def get2_all_zero)
qed

lemma py_max_mem: "py_max key xs = Inr x \<Longrightarrow> x \<in> set xs"
  using max_from_mem [of key] by (cases xs) (auto simp: py_max_def)

lemma find_last_completed_mem:
  "find_last_completed n cp m = Inr x \<Longrightarrow> x = dummy_job m \<or> x \<in> set cp"
  by (auto simp: find_last_completed_def Let_def split: option.splits if_splits dest!: py_max_mem)

lemma process_job_pred:
  assumes "process_job fb p s m cp live i = Inr (lc, live')"
  shows "lc = dummy_job m \<or> lc \<in> set live \<or> lc \<in> set cp"
  using assms
  by (auto simp: process_job_def Let_def split: sum.splits if_splits
      dest: py_max_mem find_last_completed_mem)

lemma process_job_start_zero:
  assumes "process_job fb p s m cp live i = Inr (lc, live')" and "start_time (live ! i) = 0"
  shows "lc = dummy_job m"
  using assms
  by (auto simp: process_job_def Let_def split: sum.splits if_splits)

lemma run_jobs_zero_completion:
  assumes "run_jobs fb p s m cp ps live = Inr (final, preds)"
    and "\<And>j. get2 p j m = 0" and "\<And>a b. get3 s a b m = 0"
    and "\<forall>j\<in>set cp. completion_time j = 0" and "\<forall>j\<in>set live. completion_time j = 0"
  shows "\<forall>j\<in>set final. completion_time j = 0"
  using assms(1,5)
proof (induction ps arbitrary: live final preds)
  case Nil
  then show ?case by simp
next
  case (Cons i rest)
  from Cons.prems(1) obtain lc live' where step: "process_job fb p s m cp live i = Inr (lc, live')"
    by (auto split: sum.splits)
  with Cons.prems(1) obtain preds' where rest: "run_jobs fb p s m cp rest live' = Inr (final, preds')"
    by (auto split: sum.splits)
  from process_job_pred [OF step] assms(4) Cons.prems(2) have lc: "completion_time lc = 0"
    by (auto simp: dummy_job_def)
  from process_job_form [OF step] obtain ns where
    l: "live' = live[i := complete_job p s m lc ns (live ! i)]" by blast
  have "completion_time (complete_job p s m lc ns (live ! i)) = 0"
    using lc assms(2,3) by simp
  moreover have "set live' \<subseteq> insert (complete_job p s m lc ns (live ! i)) (set live)"
    unfolding l by (rule set_update_subset_insert)
  ultimately have "\<forall>j\<in>set live'. completion_time j = 0"
    using Cons.prems(2) by auto
  with Cons.IH [OF rest] show ?case by simp
qed

lemma run_jobs_start_zero:
  assumes "run_jobs fb p s m cp ps live = Inr (final, preds)"
    and "distinct ps" and "\<forall>i\<in>set ps. start_time (live ! i) = 0"
    and "(i, lc) \<in> set preds"
  shows "lc = dummy_job m"
  using assms
proof (induction ps arbitrary: live final preds)
  case Nil
  then show ?case by simp
next
  case (Cons j rest)
  from Cons.prems(1) obtain lc0 live' where step: "process_job fb p s m cp live j = Inr (lc0, live')"
    by (auto split: sum.splits)
  with Cons.prems(1) obtain preds' where rest: "run_jobs fb p s m cp rest live' = Inr (final, preds')"
    and preds: "preds = (j, lc0) # preds'"
    by (auto split: sum.splits)
  from Cons.prems(4) preds consider "(i, lc) = (j, lc0)" | "(i, lc) \<in> set preds'" by auto
  then show ?case
  proof cases
    case 1
    with process_job_start_zero [OF step] Cons.prems(3) show ?thesis by simp
  next
    case 2
    have "\<forall>k\<in>set rest. start_time (live' ! k) = 0"
    proof
      fix k assume k: "k \<in> set rest"
      with Cons.prems(2) have "k \<noteq> j" by auto
      then have "live' ! k = live ! k" by (rule process_job_other [OF step])
      with k Cons.prems(3) show "start_time (live' ! k) = 0" by simp
    qed
    with Cons.IH [OF rest _ _ 2] Cons.prems(2) show ?thesis by simp
  qed
qed

lemma run_machine_logged:
  assumes "run_machine fb p s (m, js) = Inr r" and "(i, lc) \<in> set (resolved r)"
  shows "i < length js \<and> completion_time (final_jobs r ! i) =
           completion_time lc + get2 p (name (js ! i)) m + get3 s (name lc) (name (js ! i)) m"
proof -
  from assms(1) obtain final preds where
    f: "run_jobs fb p s m js (processing_order js) js = Inr (final, preds)"
    and r: "final_jobs r = final" "resolved r = preds"
    by (auto simp: run_machine_def split: sum.splits)
  from run_jobs_frame [OF f] have "map fst preds = processing_order js" by simp
  then have "set (map fst preds) = {0..<length js}" by simp
  moreover from assms(2) r have mem: "(i, lc) \<in> set preds" by simp
  then have "i \<in> set (map fst preds)" by force
  ultimately have i: "i < length js" by simp
  have "completion_time (final ! i) =
           completion_time lc + get2 p (name (js ! i)) m + get3 s (name lc) (name (js ! i)) m"
    using f mem by (intro run_jobs_logged [OF f]) simp_all
  with i r show ?thesis by simp
qed

lemma run_machine_zero_finish:
  assumes "run_machine fb p s (m, js) = Inr r" and "js \<noteq> []"
    and "\<And>j. get2 p j m = 0" and "\<And>a b. get3 s a b m = 0"
    and "(\<forall>j\<in>set js. completion_time j = 0) \<or> (\<forall>j\<in>set js. start_time j = 0)"
  shows "finish_time r = 0"
proof -
  from run_machine_succeeds [OF assms(2), of fb p s m] assms(1) obtain final preds where
    f: "run_jobs fb p s m js (processing_order js) js = Inr (final, preds)"
    and len: "length final = length js"
    and r: "r = \<lparr>on_machine = m, final_jobs = final, resolved = preds,
                 finish_time = Max (set (map completion_time final))\<rparr>"
    by auto
  have zero: "\<forall>j\<in>set final. completion_time j = 0"
  proof (cases "\<forall>j\<in>set js. completion_time j = 0")
    case True
    with run_jobs_zero_completion [OF f assms(3,4)] show ?thesis by simp
  next
    case False
    with assms(5) have st: "\<forall>j\<in>set js. start_time j = 0" by simp
    have preds: "map fst preds = processing_order js" using run_jobs_frame [OF f] by simp
    have "completion_time (final ! i) = 0" if "i < length final" for i
    proof -
      from that len have "i \<in> set (map fst preds)" by (simp add: preds)
      then obtain lc where mem: "(i, lc) \<in> set preds" by auto
      have "lc = dummy_job m"
        using st by (intro run_jobs_start_zero [OF f _ _ mem]) simp_all
      moreover have "completion_time (final ! i) =
           completion_time lc + get2 p (name (js ! i)) m + get3 s (name lc) (name (js ! i)) m"
        using mem by (intro run_jobs_logged [OF f]) simp_all
      ultimately show ?thesis using assms(3,4) by (simp add: dummy_job_def)
    qed
    then show ?thesis by (auto simp: in_set_conv_nth)
  qed
  from assms(2) len have "final \<noteq> []" by auto
  then obtain x where "x \<in> set final" by (cases final) auto
  with zero have "set (map completion_time final) = {0}" by force
  with r show ?thesis by simp
qed

lemma run_machines_result_member:
  assumes "run_machines fb p s es = Inr rs" and "r \<in> set rs"
  shows "\<exists>e\<in>set es. run_machine fb p s e = Inr r"
proof -
  from assms(1) have "map (run_machine fb p s) es = map Inr rs"
    by (simp add: run_machines_Inr_iff)
  moreover from assms(2) have "Inr r \<in> set (map Inr rs)" by simp
  ultimately have "Inr r \<in> set (map (run_machine fb p s) es)" by simp
  then show ?thesis by auto
qed

lemma calc_makespan_zero_tables:
  assumes "\<forall>row\<in>set P. \<forall>t\<in>set row. t = 0"
    and "\<forall>plane\<in>set S. \<forall>row\<in>set plane. \<forall>t\<in>set row. t = 0"
    and "jobs \<noteq> []"
  shows "\<exists>mk rs. calc_makespan jobs P S jn ms fb = Inr (mk, rs)
           \<and> (\<forall>r\<in>set rs. \<forall>(i, lc)\<in>set (resolved r).
                 completion_time (final_jobs r ! i) = completion_time lc)
           \<and> ((\<forall>j\<in>set jobs. completion_time j = 0) \<or> (\<forall>j\<in>set jobs. start_time j = 0)
                \<longrightarrow> mk = 0)"
proof -
  let ?p = "makeDict2 (tl jn) ms P" and ?s = "makeDict3 jn jn ms S"
  have p0: "get2 ?p j m = 0" for j m using assms(1) by (rule get2_all_zero)
  have s0: "get3 ?s a b m = 0" for a b m using assms(2) by (rule get3_all_zero)
  from calc_makespan_result [OF assms(3), of fb jn ms P S] obtain rs where
    rs: "run_machines fb ?p ?s (assigned_machines jobs) = Inr rs" and ne: "rs \<noteq> []"
    and c: "calc_makespan jobs P S jn ms fb = Inr (Max (set (map finish_time rs)), rs)"
    by blast
  have entry: "\<exists>m js. run_machine fb ?p ?s (m, js) = Inr r \<and> js \<noteq> [] \<and> set js \<subseteq> set jobs"
    if "r \<in> set rs" for r
  proof -
    from run_machines_result_member [OF rs that] obtain m js where
      e: "(m, js) \<in> set (assigned_machines jobs)" "run_machine fb ?p ?s (m, js) = Inr r"
      by auto
    from assigned_machines_entry [OF e(1)] have "js \<noteq> []" "set js \<subseteq> set jobs" by auto
    with e(2) show ?thesis by blast
  qed
  have logged: "\<forall>r\<in>set rs. \<forall>(i, lc)\<in>set (resolved r).
                 completion_time (final_jobs r ! i) = completion_time lc"
  proof (intro ballI, clarify)
    fix r i lc assume "r \<in> set rs" "(i, lc) \<in> set (resolved r)"
    with entry obtain m js where "run_machine fb ?p ?s (m, js) = Inr r" by blast
    from run_machine_logged [OF this \<open>(i, lc) \<in> set (resolved r)\<close>]
    show "completion_time (final_jobs r ! i) = completion_time lc"
      by (simp add: p0 s0)
  qed
  have zero: "Max (set (map finish_time rs)) = 0"
    if h: "(\<forall>j\<in>set jobs. completion_time j = 0) \<or> (\<forall>j\<in>set jobs. start_time j = 0)"
  proof -
    have "finish_time r = 0" if "r \<in> set rs" for r
    proof -
      from entry [OF that] obtain m js where
        e: "run_machine fb ?p ?s (m, js) = Inr r" "js \<noteq> []" "set js \<subseteq> set jobs" by blast
      from h e(3) have "(\<forall>j\<in>set js. completion_time j = 0) \<or> (\<forall>j\<in>set js. start_time j = 0)"
        by auto
      with e(1,2) show ?thesis by (intro run_machine_zero_finish [of fb ?p ?s m js r]) (simp_all add: p0 s0)
    qed
    moreover from ne obtain x where "x \<in> set rs" by (cases rs) auto
    ultimately have "set (map finish_time rs) = {0}" by force
    then show ?thesis by simp
  qed
  from c logged zero show ?thesis by blast
qed

text \<open>
  Claim C2, as amended. When every entry of the processing-time and of the setup-time
  input is 0 and there is a job, both entry points return a makespan, and every job's
  completion time is the completion time of the predecessor that was resolved for it, as
  that predecessor stood when it was resolved. The makespan is 0 when moreover every job
  carries the completion time 0 on input, or every job has the start time 0.
\<close>

theorem zero_tables_inherit_completion:
  assumes "\<forall>row\<in>set P. \<forall>t\<in>set row. t = 0"
    and "\<forall>plane\<in>set S. \<forall>row\<in>set plane. \<forall>t\<in>set row. t = 0"
    and "jobs \<noteq> []"
  shows "\<exists>mk rs mk' rs'.
           calculate_makespan lp_jobs lp_machines jobs P S = Inr (mk, rs)
           \<and> calculate_bin_makespan jobs P S accelerators = Inr (mk', rs')
           \<and> (\<forall>r\<in>set (rs @ rs'). \<forall>(i, lc)\<in>set (resolved r).
                 completion_time (final_jobs r ! i) = completion_time lc)
           \<and> ((\<forall>j\<in>set jobs. completion_time j = 0) \<or> (\<forall>j\<in>set jobs. start_time j = 0)
                \<longrightarrow> mk = 0 \<and> mk' = 0)"
proof -
  from calc_makespan_zero_tables [OF assms, of lp_jobs lp_machines False]
  obtain mk rs where a: "calc_makespan jobs P S lp_jobs lp_machines False = Inr (mk, rs)"
    "\<forall>r\<in>set rs. \<forall>(i, lc)\<in>set (resolved r).
        completion_time (final_jobs r ! i) = completion_time lc"
    "(\<forall>j\<in>set jobs. completion_time j = 0) \<or> (\<forall>j\<in>set jobs. start_time j = 0) \<longrightarrow> mk = 0"
    by blast
  from calc_makespan_zero_tables [OF assms, of "''0'' # map name jobs" "map fst accelerators" True]
  obtain mk' rs' where b: "calc_makespan jobs P S (''0'' # map name jobs) (map fst accelerators) True
      = Inr (mk', rs')"
    "\<forall>r\<in>set rs'. \<forall>(i, lc)\<in>set (resolved r).
        completion_time (final_jobs r ! i) = completion_time lc"
    "(\<forall>j\<in>set jobs. completion_time j = 0) \<or> (\<forall>j\<in>set jobs. start_time j = 0) \<longrightarrow> mk' = 0"
    by blast
  have "calculate_makespan lp_jobs lp_machines jobs P S = Inr (mk, rs)"
    using a(1) by (simp add: calculate_makespan_def)
  moreover have "calculate_bin_makespan jobs P S accelerators = Inr (mk', rs')"
    using b(1) by (simp add: calculate_bin_makespan_def)
  moreover have "\<forall>r\<in>set (rs @ rs'). \<forall>(i, lc)\<in>set (resolved r).
                 completion_time (final_jobs r ! i) = completion_time lc"
    using a(2) b(2) by auto
  ultimately show ?thesis using a(3) b(3) by blast
qed

text \<open>Two jobs on one machine that carry the completion time 0 on input.\<close>

theorem zero_tables_inherit_completion_witness:
  "\<exists>mk rs mk' rs'.
     calculate_makespan [''0'', ''A'', ''B''] [''M'']
       [\<lparr>name = ''A'', machine = ''M'', start_time = 0, completion_time = 0, capacity = 1\<rparr>,
        \<lparr>name = ''B'', machine = ''M'', start_time = 5, completion_time = 0, capacity = 1\<rparr>]
       [[0], [0]] [[[0], [0], [0]], [[0], [0], [0]], [[0], [0], [0]]] = Inr (mk, rs)
     \<and> calculate_bin_makespan
       [\<lparr>name = ''A'', machine = ''M'', start_time = 0, completion_time = 0, capacity = 1\<rparr>,
        \<lparr>name = ''B'', machine = ''M'', start_time = 5, completion_time = 0, capacity = 1\<rparr>]
       [[0], [0]] [[[0], [0], [0]], [[0], [0], [0]], [[0], [0], [0]]] [(''M'', 1)] = Inr (mk', rs')
     \<and> mk = 0 \<and> mk' = 0"
proof -
  have p: "\<forall>row\<in>set [[0], [0::real]]. \<forall>t\<in>set row. t = 0" by simp
  have s: "\<forall>plane\<in>set ([[[0], [0], [0]], [[0], [0], [0]], [[0], [0], [0]]] :: real list list list).
      \<forall>row\<in>set plane. \<forall>t\<in>set row. t = 0" by simp
  have ne: "[\<lparr>name = ''A'', machine = ''M'', start_time = 0, completion_time = 0, capacity = 1\<rparr>,
        \<lparr>name = ''B'', machine = ''M'', start_time = 5, completion_time = 0, capacity = 1\<rparr>] \<noteq> []"
    by simp
  from zero_tables_inherit_completion [OF p s ne, of "[''0'', ''A'', ''B'']" "[''M'']" "[(''M'', 1)]"]
  show ?thesis by auto
qed

text \<open>
  Claim C2 as stated fails: with tables that are 0 throughout, job A (start time 0,
  completion time 3 on input) and job B (start time 5, completion time 8 on input) on one
  machine. In ordered-list mode B follows A and inherits the completion time 3 that A
  carries on input, so the makespan is 3; in dynamic-bin mode B is the live maximum,
  follows itself and keeps 8, so the makespan is 8.
\<close>

theorem zero_tables_inherit_completion_counterexample:
  "map_sum (\<lambda>e. e) fst
     (calculate_makespan [''0'', ''A'', ''B''] [''M'']
        [\<lparr>name = ''A'', machine = ''M'', start_time = 0, completion_time = 3, capacity = 1\<rparr>,
         \<lparr>name = ''B'', machine = ''M'', start_time = 5, completion_time = 8, capacity = 1\<rparr>]
        [[0], [0]] [[[0], [0], [0]], [[0], [0], [0]], [[0], [0], [0]]]) = Inr 3
   \<and> map_sum (\<lambda>e. e) fst
     (calculate_bin_makespan
        [\<lparr>name = ''A'', machine = ''M'', start_time = 0, completion_time = 3, capacity = 1\<rparr>,
         \<lparr>name = ''B'', machine = ''M'', start_time = 5, completion_time = 8, capacity = 1\<rparr>]
        [[0], [0]] [[[0], [0], [0]], [[0], [0], [0]], [[0], [0], [0]]] [(''M'', 1)]) = Inr 8"
  by (simp add: ordered_run_defs calculate_bin_makespan_def
      makeDict3_def makeDict2_def makeDict1_def get1_def get2_def get3_def)

subsection \<open>Ordered-list mode: the completion times as a function of the snapshot\<close>

lemma process_job_ordered_completion:
  assumes "process_job False p s m cp live i = Inr (lc, live')" and "i < length live"
  shows "completion_time (live' ! i) = ordered_completion p s m cp (live ! i)"
  using assms
  by (auto simp: process_job_def ordered_completion_def Let_def split: sum.splits)

lemma run_jobs_ordered_completion:
  assumes "run_jobs False p s m cp ps live = Inr (final, preds)"
    and "distinct ps" and "\<forall>i\<in>set ps. i < length live" and "i \<in> set ps"
  shows "completion_time (final ! i) = ordered_completion p s m cp (live ! i)"
  using assms
proof (induction ps arbitrary: live final preds)
  case Nil
  then show ?case by simp
next
  case (Cons j rest)
  from Cons.prems(1) obtain lc0 live' where step: "process_job False p s m cp live j = Inr (lc0, live')"
    by (auto split: sum.splits)
  with Cons.prems(1) obtain preds' where rest: "run_jobs False p s m cp rest live' = Inr (final, preds')"
    by (auto split: sum.splits)
  show ?case
  proof (cases "i = j")
    case True
    from Cons.prems(2) have "j \<notin> set rest" by simp
    then have "final ! j = live' ! j" using run_jobs_frame [OF rest] by simp
    moreover have "j < length live" using Cons.prems(3) by simp
    ultimately show ?thesis
      using True process_job_ordered_completion [OF step] by simp
  next
    case False
    with Cons.prems(4) have i: "i \<in> set rest" by simp
    have "\<forall>k\<in>set rest. k < length live'"
      using Cons.prems(3) process_job_length [OF step] by simp
    with Cons.IH [OF rest _ _ i] Cons.prems(2)
    have "completion_time (final ! i) = ordered_completion p s m cp (live' ! i)" by simp
    with process_job_other [OF step False] show ?thesis by simp
  qed
qed

lemma run_machine_ordered_finish:
  assumes "run_machine False p s (m, js) = Inr r" and "js \<noteq> []"
  shows "map completion_time (final_jobs r) = map (ordered_completion p s m js) js
         \<and> finish_time r = ordered_finish p s (m, js)"
proof -
  from run_machine_succeeds [OF assms(2), of False p s m] assms(1) obtain final preds where
    f: "run_jobs False p s m js (processing_order js) js = Inr (final, preds)"
    and len: "length final = length js"
    and r: "r = \<lparr>on_machine = m, final_jobs = final, resolved = preds,
                 finish_time = Max (set (map completion_time final))\<rparr>"
    by auto
  have "completion_time (final ! i) = ordered_completion p s m js (js ! i)" if "i < length js" for i
    using that by (intro run_jobs_ordered_completion [OF f]) simp_all
  with len have "map completion_time final = map (ordered_completion p s m js) js"
    by (intro nth_equalityI) simp_all
  with r show ?thesis by (simp add: ordered_finish_def)
qed

lemma run_machines_ordered_finish:
  assumes "run_machines False p s es = Inr rs" and "\<forall>e\<in>set es. snd e \<noteq> []"
  shows "map finish_time rs = map (ordered_finish p s) es"
  using assms
proof (induction es arbitrary: rs)
  case Nil
  then show ?case by simp
next
  case (Cons e es)
  obtain m js where e: "e = (m, js)" by (cases e)
  from Cons.prems(1) e obtain r rest where r: "run_machine False p s (m, js) = Inr r"
    "run_machines False p s es = Inr rest" "rs = r # rest"
    by (auto split: sum.splits)
  from Cons.prems(2) e have "js \<noteq> []" by simp
  from run_machine_ordered_finish [OF r(1) this] have "finish_time r = ordered_finish p s (m, js)"
    by simp
  moreover have "map finish_time rest = map (ordered_finish p s) es"
    using Cons.IH [OF r(2)] Cons.prems(2) by simp
  ultimately show ?case using r(3) e by simp
qed

lemma set_assigned_machines:
  "set (assigned_machines jobs) =
     (\<lambda>m. (m, filter (\<lambda>j. machine j = m) jobs)) ` set (map machine jobs)"
proof (intro set_eqI iffI)
  fix e assume a: "e \<in> set (assigned_machines jobs)"
  obtain m js where e: "e = (m, js)" by (cases e)
  from assigned_machines_entry [of m js jobs] a e
  have "js = filter (\<lambda>j. machine j = m) jobs" "m \<in> set (map machine jobs)" by simp_all
  with e show "e \<in> (\<lambda>m. (m, filter (\<lambda>j. machine j = m) jobs)) ` set (map machine jobs)"
    by blast
next
  fix e assume "e \<in> (\<lambda>m. (m, filter (\<lambda>j. machine j = m) jobs)) ` set (map machine jobs)"
  then show "e \<in> set (assigned_machines jobs)"
    using assigned_machines_has [of _ jobs] by auto
qed

lemma calc_makespan_ordered:
  assumes "jobs \<noteq> []"
  shows "map_sum (\<lambda>e. e) fst (calc_makespan jobs P S jn ms False) =
           Inr (Max ((\<lambda>m. ordered_finish (makeDict2 (tl jn) ms P) (makeDict3 jn jn ms S)
                            (m, filter (\<lambda>j. machine j = m) jobs)) ` set (map machine jobs)))"
proof -
  let ?p = "makeDict2 (tl jn) ms P" and ?s = "makeDict3 jn jn ms S"
  from calc_makespan_result [OF assms, of False jn ms P S] obtain rs where
    rs: "run_machines False ?p ?s (assigned_machines jobs) = Inr rs"
    and c: "calc_makespan jobs P S jn ms False = Inr (Max (set (map finish_time rs)), rs)"
    by blast
  have "map finish_time rs = map (ordered_finish ?p ?s) (assigned_machines jobs)"
    using rs by (rule run_machines_ordered_finish) (auto dest: assigned_machines_entry)
  then have "set (map finish_time rs) = ordered_finish ?p ?s ` set (assigned_machines jobs)"
    by simp
  also have "\<dots> = (\<lambda>m. ordered_finish ?p ?s (m, filter (\<lambda>j. machine j = m) jobs)) ` set (map machine jobs)"
    unfolding set_assigned_machines by (simp add: image_image)
  finally show ?thesis using c by simp
qed

subsection \<open>Ordered-list mode: reordering the job list\<close>

lemma find_unique_name:
  assumes "job \<in> set cp" and "inj_on name (set cp)"
  shows "find (\<lambda>j. name j = name job) cp = Some job"
  using assms
proof (induction cp)
  case Nil
  then show ?case by simp
next
  case (Cons x xs)
  show ?case
  proof (cases "name x = name job")
    case True
    with Cons.prems have "x = job" by (auto simp: inj_on_def)
    with True show ?thesis by simp
  next
    case False
    with Cons.prems have "job \<in> set xs" "inj_on name (set xs)" by (auto simp: inj_on_def)
    with Cons.IH False show ?thesis by simp
  qed
qed

lemma py_max_same_set:
  assumes "set xs = set ys" and "inj_on key (set xs)" and "xs \<noteq> []"
  shows "py_max key xs = py_max key ys"
proof -
  from assms(1,3) have "ys \<noteq> []" by auto
  from py_max_nonempty [OF assms(3), of key] obtain x where
    x: "py_max key xs = Inr x" "x \<in> set xs" "\<forall>y\<in>set xs. key y \<le> key x" by blast
  from py_max_nonempty [OF \<open>ys \<noteq> []\<close>, of key] obtain y where
    y: "py_max key ys = Inr y" "y \<in> set ys" "\<forall>z\<in>set ys. key z \<le> key y" by blast
  from x y assms(1) have "key x \<le> key y" "key y \<le> key x" by auto
  then have "key x = key y" by simp
  with assms(1,2) x(2) y(2) have "x = y" by (auto simp: inj_on_def)
  with x(1) y(1) show ?thesis by simp
qed

lemma find_last_completed_same_set:
  assumes "job \<in> set cp" and "set cp = set cp'"
    and "inj_on name (set cp)" and "inj_on completion_time (set cp)"
  shows "find_last_completed (name job) cp m = find_last_completed (name job) cp' m"
proof -
  let ?cb = "filter (\<lambda>j. completion_time j \<le> start_time job) cp"
  let ?cb' = "filter (\<lambda>j. completion_time j \<le> start_time job) cp'"
  have f: "find (\<lambda>j. name j = name job) cp = Some job"
    using assms(1,3) by (rule find_unique_name)
  have f': "find (\<lambda>j. name j = name job) cp' = Some job"
    using assms(1,2,3) by (intro find_unique_name) simp_all
  have s: "set ?cb = set ?cb'" using assms(2) by simp
  show ?thesis
  proof (cases "?cb = []")
    case True
    with s have "?cb' = []" by (metis set_empty)
    with True f f' show ?thesis by (simp add: find_last_completed_def)
  next
    case False
    with s have ne: "?cb' \<noteq> []" by (metis set_empty)
    have "inj_on completion_time (set ?cb)"
      using assms(4) by (rule inj_on_subset) auto
    from py_max_same_set [OF s this False] False ne f f' show ?thesis
      by (simp add: find_last_completed_def)
  qed
qed

lemma ordered_completion_same_set:
  assumes "job \<in> set cp" and "set cp = set cp'"
    and "inj_on name (set cp)" and "inj_on completion_time (set cp)"
  shows "ordered_completion p s m cp job = ordered_completion p s m cp' job"
  unfolding ordered_completion_def find_last_completed_same_set [OF assms] ..

lemma ordered_finish_same_set:
  assumes "set js = set js'" and "inj_on name (set js)" and "inj_on completion_time (set js)"
  shows "ordered_finish p s (m, js) = ordered_finish p s (m, js')"
proof -
  have "ordered_completion p s m js ` set js = ordered_completion p s m js' ` set js'"
    using assms by (auto simp: ordered_completion_same_set [of _ js js'] intro!: image_eqI)
  then show ?thesis by (simp add: ordered_finish_def)
qed

lemma calc_makespan_ordered_permuted:
  assumes "mset jobs' = mset jobs"
    and "inj_on (\<lambda>j. (machine j, name j)) (set jobs)"
    and "inj_on (\<lambda>j. (machine j, completion_time j)) (set jobs)"
  shows "map_sum (\<lambda>e. e) fst (calc_makespan jobs' P S jn ms False)
           = map_sum (\<lambda>e. e) fst (calc_makespan jobs P S jn ms False)"
proof (cases "jobs = []")
  case True
  with assms(1) show ?thesis by simp
next
  case False
  with assms(1) have ne': "jobs' \<noteq> []" by auto
  from assms(1) have st: "set jobs' = set jobs" by (rule mset_eq_setD)
  let ?p = "makeDict2 (tl jn) ms P" and ?s = "makeDict3 jn jn ms S"
  have "ordered_finish ?p ?s (m, filter (\<lambda>j. machine j = m) jobs')
          = ordered_finish ?p ?s (m, filter (\<lambda>j. machine j = m) jobs)" for m
  proof (rule ordered_finish_same_set)
    show "set (filter (\<lambda>j. machine j = m) jobs') = set (filter (\<lambda>j. machine j = m) jobs)"
      using st by simp
    show "inj_on name (set (filter (\<lambda>j. machine j = m) jobs'))"
      using assms(2) st by (auto simp: inj_on_def)
    show "inj_on completion_time (set (filter (\<lambda>j. machine j = m) jobs'))"
      using assms(3) st by (auto simp: inj_on_def)
  qed
  moreover have "set (map machine jobs') = set (map machine jobs)" using st by simp
  ultimately show ?thesis
    unfolding calc_makespan_ordered [OF False] calc_makespan_ordered [OF ne'] by simp
qed

text \<open>
  Claim C5, as amended. In ordered-list mode two job lists that are permutations of each
  other give the same makespan (or both the error of the empty list), provided that no
  two different jobs of one machine share a name, and no two different jobs of one
  machine carry the same completion time on input. The completion time of a job is then
  determined by the set of the jobs of its machine, not by their positions.
\<close>

theorem ordered_makespan_permutation_invariant:
  assumes "mset jobs' = mset jobs"
    and "inj_on (\<lambda>j. (machine j, name j)) (set jobs)"
    and "inj_on (\<lambda>j. (machine j, completion_time j)) (set jobs)"
  shows "map_sum (\<lambda>e. e) fst (calculate_makespan lp_jobs lp_machines jobs' P S)
           = map_sum (\<lambda>e. e) fst (calculate_makespan lp_jobs lp_machines jobs P S)"
  using calc_makespan_ordered_permuted [OF assms] by (simp add: calculate_makespan_def)

text \<open>The two jobs of the scenario of claim C1, in both orders.\<close>

theorem ordered_makespan_permutation_invariant_witness:
  "map_sum (\<lambda>e. e) fst
     (calculate_makespan [''0'', ''A'', ''B''] [''M'']
        [\<lparr>name = ''B'', machine = ''M'', start_time = 5, completion_time = 8, capacity = 1\<rparr>,
         \<lparr>name = ''A'', machine = ''M'', start_time = 0, completion_time = 5, capacity = 1\<rparr>]
        [[5], [3]] [[[0], [0], [0]], [[0], [0], [2]], [[0], [0], [0]]])
   = map_sum (\<lambda>e. e) fst
     (calculate_makespan [''0'', ''A'', ''B''] [''M'']
        [\<lparr>name = ''A'', machine = ''M'', start_time = 0, completion_time = 5, capacity = 1\<rparr>,
         \<lparr>name = ''B'', machine = ''M'', start_time = 5, completion_time = 8, capacity = 1\<rparr>]
        [[5], [3]] [[[0], [0], [0]], [[0], [0], [2]], [[0], [0], [0]]])"
proof -
  let ?A = "\<lparr>name = ''A'', machine = ''M'', start_time = 0, completion_time = 5, capacity = 1\<rparr>"
  let ?B = "\<lparr>name = ''B'', machine = ''M'', start_time = 5, completion_time = 8, capacity = 1\<rparr>"
  have m: "mset [?B, ?A] = mset [?A, ?B]" by simp
  have n: "inj_on (\<lambda>j. (machine j, name j)) (set [?A, ?B])" by simp
  have c: "inj_on (\<lambda>j. (machine j, completion_time j)) (set [?A, ?B])" by simp
  from ordered_makespan_permutation_invariant [OF m n c] show ?thesis .
qed

text \<open>
  Claim C5 as stated fails. Jobs A (start time 0), B and C (start time 5) are on one
  machine; A and B both carry the completion time 5 on input, C carries 8. C takes 3 to
  process, and the setup from B to C takes 10. Among the jobs completed when C starts,
  \<^verbatim>\<open>max\<close> keeps the first one of the list with the maximal completion time: with A
  before B, C follows A and the makespan is 5 + 3 + 0 = 8; with B before A, C follows B
  and the makespan is 5 + 3 + 10 = 18.
\<close>

theorem ordered_makespan_permutation_invariant_counterexample:
  "map_sum (\<lambda>e. e) fst
     (calculate_makespan [''0'', ''A'', ''B'', ''C''] [''M'']
        [\<lparr>name = ''A'', machine = ''M'', start_time = 0, completion_time = 5, capacity = 1\<rparr>,
         \<lparr>name = ''B'', machine = ''M'', start_time = 5, completion_time = 5, capacity = 1\<rparr>,
         \<lparr>name = ''C'', machine = ''M'', start_time = 5, completion_time = 8, capacity = 1\<rparr>]
        [[5], [0], [3]]
        [[[0], [0], [0], [0]], [[0], [0], [0], [0]], [[0], [0], [0], [10]], [[0], [0], [0], [0]]])
     = Inr 8
   \<and> map_sum (\<lambda>e. e) fst
     (calculate_makespan [''0'', ''A'', ''B'', ''C''] [''M'']
        [\<lparr>name = ''B'', machine = ''M'', start_time = 5, completion_time = 5, capacity = 1\<rparr>,
         \<lparr>name = ''A'', machine = ''M'', start_time = 0, completion_time = 5, capacity = 1\<rparr>,
         \<lparr>name = ''C'', machine = ''M'', start_time = 5, completion_time = 8, capacity = 1\<rparr>]
        [[5], [0], [3]]
        [[[0], [0], [0], [0]], [[0], [0], [0], [0]], [[0], [0], [0], [10]], [[0], [0], [0], [0]]])
     = Inr 18"
  by (simp add: ordered_run_defs
      makeDict3_def makeDict2_def makeDict1_def get1_def get2_def get3_def)

subsection \<open>What a call leaves in the job list\<close>

lemma process_job_kept:
  assumes "process_job fb p s m cp live i = Inr (lc, live')"
  shows "machine (live' ! k) = machine (live ! k) \<and> capacity (live' ! k) = capacity (live ! k)"
proof -
  from assms obtain ns where l: "live' = live[i := complete_job p s m lc ns (live ! i)]"
    using process_job_form by blast
  show ?thesis
  proof (cases "i < length live")
    case True
    with l show ?thesis by (cases "k = i") simp_all
  next
    case False
    with l show ?thesis by (simp add: list_update_beyond)
  qed
qed

lemma run_jobs_kept:
  assumes "run_jobs fb p s m cp ps live = Inr (final, preds)"
  shows "machine (final ! k) = machine (live ! k) \<and> capacity (final ! k) = capacity (live ! k)"
  using assms
proof (induction ps arbitrary: live final preds)
  case Nil
  then show ?case by simp
next
  case (Cons i rest)
  from Cons.prems obtain lc live' where step: "process_job fb p s m cp live i = Inr (lc, live')"
    by (auto split: sum.splits)
  with Cons.prems obtain preds' where rest: "run_jobs fb p s m cp rest live' = Inr (final, preds')"
    by (auto split: sum.splits)
  from Cons.IH [OF rest] process_job_kept [OF step, of k] show ?case by simp
qed

lemma run_machine_kept:
  assumes "run_machine fb p s (m, js) = Inr r"
  shows "length (final_jobs r) = length js
         \<and> (\<forall>k. name (final_jobs r ! k) = name (js ! k)
                \<and> machine (final_jobs r ! k) = machine (js ! k)
                \<and> capacity (final_jobs r ! k) = capacity (js ! k))"
proof -
  from assms obtain final preds where f: "run_jobs fb p s m js (processing_order js) js = Inr (final, preds)"
    and r: "final_jobs r = final"
    by (auto simp: run_machine_def split: sum.splits)
  from run_jobs_frame [OF f] run_jobs_kept [OF f] r show ?thesis by simp
qed

lemma filter_nth_rank:
  assumes "k < length xs" and "P (xs ! k)"
  shows "length (filter P (take k xs)) < length (filter P xs)
         \<and> filter P xs ! length (filter P (take k xs)) = xs ! k"
proof -
  have "xs = take k xs @ xs ! k # drop (Suc k) xs"
    using assms(1) by (rule id_take_nth_drop)
  then have "filter P xs = filter P (take k xs) @ xs ! k # filter P (drop (Suc k) xs)"
    using assms(2) by (metis filter.simps(2) filter_append)
  then show ?thesis by (simp add: nth_append)
qed

lemma run_machines_find:
  assumes "run_machines fb p s es = Inr rs" and "(m, js) \<in> set es" and "distinct (map fst es)"
  shows "\<exists>r. find (\<lambda>r. on_machine r = m) rs = Some r \<and> run_machine fb p s (m, js) = Inr r"
  using assms
proof (induction es arbitrary: rs)
  case Nil
  then show ?case by simp
next
  case (Cons e es)
  obtain m' js' where e: "e = (m', js')" by (cases e)
  from Cons.prems(1) e obtain r rest where r: "run_machine fb p s (m', js') = Inr r"
    "run_machines fb p s es = Inr rest" "rs = r # rest"
    by (auto split: sum.splits)
  have om: "on_machine r = m'" using r(1) by (rule run_machine_on_machine)
  show ?case
  proof (cases "m' = m")
    case True
    with Cons.prems(2,3) e have "js' = js" by (auto simp: rev_image_eqI)
    with True r om show ?thesis by simp
  next
    case False
    with Cons.prems(2,3) e have "(m, js) \<in> set es" "distinct (map fst es)" by auto
    from Cons.IH [OF r(2) this] False om r(3) show ?thesis by simp
  qed
qed

lemma ledger_after_kept:
  assumes "run_machines fb p s (assigned_machines jobs) = Inr rs" and "k < length jobs"
  shows "name (ledger_after jobs rs ! k) = name (jobs ! k)
         \<and> machine (ledger_after jobs rs ! k) = machine (jobs ! k)
         \<and> capacity (ledger_after jobs rs ! k) = capacity (jobs ! k)"
proof -
  let ?m = "machine (jobs ! k)"
  let ?js = "filter (\<lambda>j. machine j = ?m) jobs"
  let ?q = "length (filter (\<lambda>j. machine j = ?m) (take k jobs))"
  have d: "distinct (map fst (assigned_machines jobs))"
    using grouped_assigned_machines [of jobs] by (simp add: grouped_def)
  have "(?m, ?js) \<in> set (assigned_machines jobs)"
    using assms(2) by (intro assigned_machines_has) simp
  from run_machines_find [OF assms(1) this d] obtain r where
    r: "find (\<lambda>r. on_machine r = ?m) rs = Some r" "run_machine fb p s (?m, ?js) = Inr r"
    by blast
  have q: "?js ! ?q = jobs ! k"
    using filter_nth_rank [of k jobs "\<lambda>j. machine j = ?m"] assms(2) by simp
  have "ledger_after jobs rs ! k = final_jobs r ! ?q"
    using assms(2) r(1) by (simp add: ledger_after_def)
  with run_machine_kept [OF r(2)] q show ?thesis by simp
qed

lemma restore_times_ledger_after:
  assumes "run_machines fb p s (assigned_machines jobs) = Inr rs"
  shows "restore_times jobs (ledger_after jobs rs) = jobs"
proof (rule nth_equalityI)
  show "length (restore_times jobs (ledger_after jobs rs)) = length jobs"
    by (simp add: restore_times_def ledger_after_def)
next
  fix k assume "k < length (restore_times jobs (ledger_after jobs rs))"
  then have k: "k < length jobs" by (simp add: restore_times_def ledger_after_def)
  then have "k < length (ledger_after jobs rs)" by (simp add: ledger_after_def)
  with k have "restore_times jobs (ledger_after jobs rs) ! k =
      (ledger_after jobs rs ! k)\<lparr>start_time := start_time (jobs ! k),
                                 completion_time := completion_time (jobs ! k)\<rparr>"
    by (simp add: restore_times_def)
  also have "\<dots> = jobs ! k"
    using ledger_after_kept [OF assms k] by simp
  finally show "restore_times jobs (ledger_after jobs rs) ! k = jobs ! k" .
qed

lemma calc_makespan_InrD:
  assumes "calc_makespan jobs P S jn ms fb = Inr (mk, rs)"
  shows "run_machines fb (makeDict2 (tl jn) ms P) (makeDict3 jn jn ms S) (assigned_machines jobs) = Inr rs"
  using assms by (auto simp: calc_makespan_def Let_def split: sum.splits)

text \<open>
  Claim C6, as amended. A call of \<^verbatim>\<open>calculate_makespan\<close> that returns leaves the job
  list with its length and with every job's name, machine and capacity as they were: it
  overwrites start times and completion times only. Once these two fields are restored
  to the values they had before the call, the list is the one the first call was given,
  and a second call returns the same output as the first.
\<close>

theorem second_call_after_restore:
  assumes "calculate_makespan lp_jobs lp_machines jobs P S = Inr (mk, rs)"
  shows "length (ledger_after jobs rs) = length jobs
         \<and> map name (ledger_after jobs rs) = map name jobs
         \<and> map machine (ledger_after jobs rs) = map machine jobs
         \<and> map capacity (ledger_after jobs rs) = map capacity jobs
         \<and> restore_times jobs (ledger_after jobs rs) = jobs
         \<and> calculate_makespan lp_jobs lp_machines (restore_times jobs (ledger_after jobs rs)) P S
             = Inr (mk, rs)"
proof -
  from assms have rm: "run_machines False (makeDict2 (tl lp_jobs) lp_machines P)
      (makeDict3 lp_jobs lp_jobs lp_machines S) (assigned_machines jobs) = Inr rs"
    unfolding calculate_makespan_def by (rule calc_makespan_InrD)
  have len: "length (ledger_after jobs rs) = length jobs" by (simp add: ledger_after_def)
  have kept: "name (ledger_after jobs rs ! k) = name (jobs ! k)
         \<and> machine (ledger_after jobs rs ! k) = machine (jobs ! k)
         \<and> capacity (ledger_after jobs rs ! k) = capacity (jobs ! k)" if "k < length jobs" for k
    using rm that by (rule ledger_after_kept)
  have "map name (ledger_after jobs rs) = map name jobs"
    using len kept by (intro nth_equalityI) simp_all
  moreover have "map machine (ledger_after jobs rs) = map machine jobs"
    using len kept by (intro nth_equalityI) simp_all
  moreover have "map capacity (ledger_after jobs rs) = map capacity jobs"
    using len kept by (intro nth_equalityI) simp_all
  moreover have "restore_times jobs (ledger_after jobs rs) = jobs"
    using rm by (rule restore_times_ledger_after)
  ultimately show ?thesis using len assms by simp
qed

text \<open>The first call of the scenario below, and the second call after the restoration.\<close>

theorem second_call_after_restore_witness:
  "restore_times
     [\<lparr>name = ''A'', machine = ''M'', start_time = 0, completion_time = 3, capacity = 1\<rparr>,
      \<lparr>name = ''B'', machine = ''M'', start_time = 5, completion_time = 8, capacity = 1\<rparr>]
     (ledger_after
        [\<lparr>name = ''A'', machine = ''M'', start_time = 0, completion_time = 3, capacity = 1\<rparr>,
         \<lparr>name = ''B'', machine = ''M'', start_time = 5, completion_time = 8, capacity = 1\<rparr>]
        [\<lparr>on_machine = ''M'',
          final_jobs =
            [\<lparr>name = ''A'', machine = ''M'', start_time = 0, completion_time = 5, capacity = 1\<rparr>,
             \<lparr>name = ''B'', machine = ''M'', start_time = 5, completion_time = 6, capacity = 1\<rparr>],
          resolved =
            [(0, dummy_job ''M''),
             (1, \<lparr>name = ''A'', machine = ''M'', start_time = 0, completion_time = 3, capacity = 1\<rparr>)],
          finish_time = 6\<rparr>])
   = [\<lparr>name = ''A'', machine = ''M'', start_time = 0, completion_time = 3, capacity = 1\<rparr>,
      \<lparr>name = ''B'', machine = ''M'', start_time = 5, completion_time = 8, capacity = 1\<rparr>]"
proof -
  have first: "calculate_makespan [''0'', ''A'', ''B''] [''M'']
     [\<lparr>name = ''A'', machine = ''M'', start_time = 0, completion_time = 3, capacity = 1\<rparr>,
      \<lparr>name = ''B'', machine = ''M'', start_time = 5, completion_time = 8, capacity = 1\<rparr>]
     [[5], [3]] [[[0], [0], [0]], [[0], [0], [0]], [[0], [0], [0]]]
   = Inr (6, [\<lparr>on_machine = ''M'',
          final_jobs =
            [\<lparr>name = ''A'', machine = ''M'', start_time = 0, completion_time = 5, capacity = 1\<rparr>,
             \<lparr>name = ''B'', machine = ''M'', start_time = 5, completion_time = 6, capacity = 1\<rparr>],
          resolved =
            [(0, dummy_job ''M''),
             (1, \<lparr>name = ''A'', machine = ''M'', start_time = 0, completion_time = 3, capacity = 1\<rparr>)],
          finish_time = 6\<rparr>])"
    by (simp add: ordered_run_defs makeDict3_def makeDict2_def makeDict1_def get1_def get2_def get3_def)
  from second_call_after_restore [OF first] show ?thesis by blast
qed

text \<open>
  Claim C6 as stated fails when the second call is given the job objects as the first
  call left them. Job A (start time 0, completion time 3 on input) and job B (start time
  5, completion time 8 on input) are on one machine; processing takes 5 for A and 3 for
  B, and there is no setup. The first call resolves A for B and adds to the completion
  time 3 that A carried on input: B completes at 6 and the makespan is 6. It leaves A
  with the completion time 5, so the second call gives B the completion time 5 + 3 = 8
  and returns the makespan 8.
\<close>

theorem second_call_after_restore_counterexample:
  "calculate_makespan [''0'', ''A'', ''B''] [''M'']
     [\<lparr>name = ''A'', machine = ''M'', start_time = 0, completion_time = 3, capacity = 1\<rparr>,
      \<lparr>name = ''B'', machine = ''M'', start_time = 5, completion_time = 8, capacity = 1\<rparr>]
     [[5], [3]] [[[0], [0], [0]], [[0], [0], [0]], [[0], [0], [0]]]
   = Inr (6, [\<lparr>on_machine = ''M'',
          final_jobs =
            [\<lparr>name = ''A'', machine = ''M'', start_time = 0, completion_time = 5, capacity = 1\<rparr>,
             \<lparr>name = ''B'', machine = ''M'', start_time = 5, completion_time = 6, capacity = 1\<rparr>],
          resolved =
            [(0, \<lparr>name = ''0'', machine = ''M'', start_time = 0, completion_time = 0, capacity = 0\<rparr>),
             (1, \<lparr>name = ''A'', machine = ''M'', start_time = 0, completion_time = 3, capacity = 1\<rparr>)],
          finish_time = 6\<rparr>])
   \<and> ledger_after
     [\<lparr>name = ''A'', machine = ''M'', start_time = 0, completion_time = 3, capacity = 1\<rparr>,
      \<lparr>name = ''B'', machine = ''M'', start_time = 5, completion_time = 8, capacity = 1\<rparr>]
     [\<lparr>on_machine = ''M'',
          final_jobs =
            [\<lparr>name = ''A'', machine = ''M'', start_time = 0, completion_time = 5, capacity = 1\<rparr>,
             \<lparr>name = ''B'', machine = ''M'', start_time = 5, completion_time = 6, capacity = 1\<rparr>],
          resolved =
            [(0, \<lparr>name = ''0'', machine = ''M'', start_time = 0, completion_time = 0, capacity = 0\<rparr>),
             (1, \<lparr>name = ''A'', machine = ''M'', start_time = 0, completion_time = 3, capacity = 1\<rparr>)],
          finish_time = 6\<rparr>]
   = [\<lparr>name = ''A'', machine = ''M'', start_time = 0, completion_time = 5, capacity = 1\<rparr>,
      \<lparr>name = ''B'', machine = ''M'', start_time = 5, completion_time = 6, capacity = 1\<rparr>]
   \<and> map_sum (\<lambda>e. e) fst
     (calculate_makespan [''0'', ''A'', ''B''] [''M'']
        [\<lparr>name = ''A'', machine = ''M'', start_time = 0, completion_time = 5, capacity = 1\<rparr>,
         \<lparr>name = ''B'', machine = ''M'', start_time = 5, completion_time = 6, capacity = 1\<rparr>]
        [[5], [3]] [[[0], [0], [0]], [[0], [0], [0]], [[0], [0], [0]]])
   = Inr 8"
  by (simp add: ordered_run_defs ledger_after_def
      makeDict3_def makeDict2_def makeDict1_def get1_def get2_def get3_def)

end
